theory Spec2Isabelle
  imports Main "HOL-Library.Sublist"
begin

section \<open>Client cache: entities and the query cache\<close>

text \<open>
  The entity shapes of \<^verbatim>\<open>types/index.ts\<close>. Ids, sort orders and timestamps-as-numbers are
  JavaScript numbers holding integers; they are modelled as \<^typ>\<open>int\<close>. An optional field
  (\<^verbatim>\<open>listId?\<close>, \<^verbatim>\<open>tags?\<close>, \<^verbatim>\<open>subtasks?\<close>) is an \<^typ>\<open>'a option\<close>.
\<close>

record Subtask =
  subtask_id :: int
  subtask_taskId :: int
  subtask_text :: string
  subtask_completed :: bool
  subtask_sortOrder :: int
  subtask_createdAt :: string

record List =
  list_id :: int
  list_userId :: int
  list_title :: string
  list_createdAt :: string
  list_updatedAt :: string

record Task =
  task_id :: int
  task_userId :: int
  task_listId :: "int option"
  task_text :: string
  task_completed :: bool
  task_important :: bool
  task_isExpanded :: bool
  task_sortOrder :: int
  task_tags :: "string list option"
  task_subtasks :: "Subtask list option"
  task_createdAt :: string
  task_updatedAt :: string

text \<open>
  The data of the two query keys the reconciler touches, \<^verbatim>\<open>['tasks']\<close> and \<^verbatim>\<open>['lists']\<close>. \<^verbatim>\<open>getQueryData\<close> returns \<^verbatim>\<open>undefined\<close> for a key
  that has no data: \<^const>\<open>None\<close>. An empty array is a value (and is truthy in JavaScript).
\<close>

record cache =
  tasks_data :: "Task list option"
  lists_data :: "List list option"

text \<open>The entries of a query's data, none when the query has no data.\<close>

definition collection :: "'a list option \<Rightarrow> 'a list" where
  "collection data = (case data of None \<Rightarrow> [] | Some xs \<Rightarrow> xs)"

section \<open>Envelope application: \<^verbatim>\<open>handleWebSocketEvent\<close>\<close>

text \<open>
  The envelope \<^verbatim>\<open>{type, payload}\<close> as a tagged union: one constructor per \<^verbatim>\<open>case\<close> of the
  \<^verbatim>\<open>switch\<close>, carrying the payload at the type the case casts it to; \<open>unknown_event\<close> is the
  \<^verbatim>\<open>default\<close> branch.
\<close>

datatype WebSocketEvent =
    task_created Task
  | task_updated Task
  | task_deleted int
  | tasks_reordered "int list"
  | subtask_created Subtask
  | subtask_updated Subtask
  | subtask_deleted int
  | list_created List
  | list_updated List
  | list_deleted int
  | unknown_event string

text \<open>
  \<^verbatim>\<open>new Map(tasks.map(t => [t.id, t]))\<close>: entries are inserted left to right, a later entry
  for the same key replaces the earlier one.
\<close>

definition taskMap :: "Task list \<Rightarrow> (int \<rightharpoonup> Task)" where
  "taskMap ts = fold (\<lambda>t m. m(task_id t \<mapsto> t)) ts Map.empty"

text \<open>
  \<^verbatim>\<open>taskIds.map((id, index) => { const task = taskMap.get(id);
     return task ? { ...task, sortOrder: index } : undefined; }).filter(t => t !== undefined)\<close>
\<close>

definition reorderedTasks :: "Task list \<Rightarrow> int list \<Rightarrow> Task list" where
  "reorderedTasks ts taskIds =
     List.map_filter
       (\<lambda>(index, i). case taskMap ts i of
            Some task \<Rightarrow> Some (task\<lparr>task_sortOrder := int index\<rparr>)
          | None \<Rightarrow> None)
       (List.enumerate 0 taskIds)"

text \<open>
  \<open>reorderedTasks\<close> with the index of the first id as a parameter, for the induction over
  the id list: \<open>reorderedTasks ts ids = reorderedFrom 0 ts ids\<close>.
\<close>

definition reorderedFrom :: "nat \<Rightarrow> Task list \<Rightarrow> int list \<Rightarrow> Task list" where
  "reorderedFrom n ts taskIds =
     List.map_filter
       (\<lambda>(index, i). case taskMap ts i of
            Some task \<Rightarrow> Some (task\<lparr>task_sortOrder := int index\<rparr>)
          | None \<Rightarrow> None)
       (List.enumerate n taskIds)"

text \<open>\<^verbatim>\<open>tasks.filter(t => !taskIds.includes(t.id))\<close>\<close>

definition missingTasks :: "Task list \<Rightarrow> int list \<Rightarrow> Task list" where
  "missingTasks ts taskIds = filter (\<lambda>t. task_id t \<notin> set taskIds) ts"

text \<open>The callbacks of the three subtask cases, each applied to one task by \<^verbatim>\<open>tasks.map\<close>.\<close>

definition subtask_created_on :: "Subtask \<Rightarrow> Task \<Rightarrow> Task" where
  "subtask_created_on newSubtask task =
     (if task_id task = subtask_taskId newSubtask then
        (if \<not> (case task_subtasks task of
                  None \<Rightarrow> False
                | Some ss \<Rightarrow> list_ex (\<lambda>s. subtask_id s = subtask_id newSubtask) ss)
         then task\<lparr>task_subtasks :=
                Some ((case task_subtasks task of None \<Rightarrow> [] | Some ss \<Rightarrow> ss) @ [newSubtask])\<rparr>
         else task)
      else task)"

definition subtask_updated_on :: "Subtask \<Rightarrow> Task \<Rightarrow> Task" where
  "subtask_updated_on updatedSubtask task =
     task\<lparr>task_subtasks :=
       map_option (map (\<lambda>s. if subtask_id s = subtask_id updatedSubtask then updatedSubtask else s))
         (task_subtasks task)\<rparr>"

definition subtask_deleted_on :: "int \<Rightarrow> Task \<Rightarrow> Task" where
  "subtask_deleted_on i task =
     task\<lparr>task_subtasks := map_option (filter (\<lambda>s. subtask_id s \<noteq> i)) (task_subtasks task)\<rparr>"

text \<open>
  \<^verbatim>\<open>handleWebSocketEvent\<close>. The first two statements read the tasks query and return when it
  has no data; every case of the switch runs only after that test.
\<close>

definition handleWebSocketEvent :: "cache \<Rightarrow> WebSocketEvent \<Rightarrow> cache" where
  "handleWebSocketEvent c event =
     (case tasks_data c of
        None \<Rightarrow> c
      | Some ts \<Rightarrow>
         (case event of
            task_created newTask \<Rightarrow>
              (if \<not> list_ex (\<lambda>t. task_id t = task_id newTask) ts
               then c\<lparr>tasks_data := Some (ts @ [newTask])\<rparr> else c)
          | task_updated updatedTask \<Rightarrow>
              c\<lparr>tasks_data := Some (map (\<lambda>task. if task_id task = task_id updatedTask
                                            then updatedTask else task) ts)\<rparr>
          | task_deleted i \<Rightarrow>
              c\<lparr>tasks_data := Some (filter (\<lambda>task. task_id task \<noteq> i) ts)\<rparr>
          | tasks_reordered taskIds \<Rightarrow>
              c\<lparr>tasks_data := Some (reorderedTasks ts taskIds @ missingTasks ts taskIds)\<rparr>
          | subtask_created newSubtask \<Rightarrow>
              c\<lparr>tasks_data := Some (map (subtask_created_on newSubtask) ts)\<rparr>
          | subtask_updated updatedSubtask \<Rightarrow>
              c\<lparr>tasks_data := Some (map (subtask_updated_on updatedSubtask) ts)\<rparr>
          | subtask_deleted i \<Rightarrow>
              c\<lparr>tasks_data := Some (map (subtask_deleted_on i) ts)\<rparr>
          | list_created newList \<Rightarrow>
              (case lists_data c of
                 Some ls \<Rightarrow>
                   (if \<not> list_ex (\<lambda>l. list_id l = list_id newList) ls
                    then c\<lparr>lists_data := Some (ls @ [newList])\<rparr> else c)
               | None \<Rightarrow> c)
          | list_updated updatedList \<Rightarrow>
              (case lists_data c of
                 Some ls \<Rightarrow>
                   c\<lparr>lists_data := Some (map (\<lambda>l. if list_id l = list_id updatedList
                                              then updatedList else l) ls)\<rparr>
               | None \<Rightarrow> c)
          | list_deleted i \<Rightarrow>
              (case lists_data c of
                 Some ls \<Rightarrow> c\<lparr>lists_data := Some (filter (\<lambda>l. list_id l \<noteq> i) ls)\<rparr>
               | None \<Rightarrow> c)
          | unknown_event ty \<Rightarrow> c))"

section \<open>Optimistic list mutations: \<^verbatim>\<open>useLists.ts\<close>\<close>

text \<open>
  Each hook's callbacks as functions on the cache. \<^verbatim>\<open>onMutate\<close> returns the new cache and the
  context object it hands to the later callbacks. \<^verbatim>\<open>Date.now()\<close> and
  \<^verbatim>\<open>new Date().toISOString()\<close> read the clock: their results are parameters (\<open>now\<close>, and one
  string per call). \<^verbatim>\<open>cancelQueries\<close> and \<^verbatim>\<open>invalidateQueries\<close> start or stop network
  fetches and do not write query data themselves; they have no counterpart here.
\<close>

record create_context =
  create_previousLists :: "List list option"
  create_tempId :: int

definition createList_onMutate ::
  "cache \<Rightarrow> string \<Rightarrow> int \<Rightarrow> string \<Rightarrow> string \<Rightarrow> cache \<times> create_context" where
  "createList_onMutate c title now iso1 iso2 =
     (let previousLists = lists_data c;
          tempId = now;
          optimisticList = \<lparr>list_id = tempId, list_userId = 0, list_title = title,
                            list_createdAt = iso1, list_updatedAt = iso2\<rparr>
      in ((case previousLists of
             Some pl \<Rightarrow> c\<lparr>lists_data := Some (pl @ [optimisticList])\<rparr>
           | None \<Rightarrow> c\<lparr>lists_data := Some [optimisticList]\<rparr>),
          \<lparr>create_previousLists = previousLists, create_tempId = tempId\<rparr>))"


text \<open>\<^verbatim>\<open>if (context?.previousLists)\<close>: any array, the empty one too, is truthy.\<close>

definition createList_onError :: "cache \<Rightarrow> create_context option \<Rightarrow> cache" where
  "createList_onError c context =
     (case context of
        None \<Rightarrow> c
      | Some ctx \<Rightarrow>
          (case create_previousLists ctx of
             Some pl \<Rightarrow> c\<lparr>lists_data := Some pl\<rparr>
           | None \<Rightarrow> c))"

record update_context =
  update_previousLists :: "List list option"

text \<open>
  The callback of \<^verbatim>\<open>previousLists.map\<close> calls \<^verbatim>\<open>new Date().toISOString()\<close> itself, once for
  each list it rewrites: \<open>isoAt k\<close> is the reading taken at position \<open>k\<close> of the collection.
\<close>

definition updateList_onMutate ::
  "cache \<Rightarrow> int \<Rightarrow> string \<Rightarrow> (nat \<Rightarrow> string) \<Rightarrow> cache \<times> update_context" where
  "updateList_onMutate c i title isoAt =
     (let previousLists = lists_data c
      in ((case previousLists of
             Some pl \<Rightarrow>
               c\<lparr>lists_data := Some (map (\<lambda>(k, l). if list_id l = i
                                         then l\<lparr>list_title := title, list_updatedAt := isoAt k\<rparr>
                                         else l) (List.enumerate 0 pl))\<rparr>
           | None \<Rightarrow> c),
          \<lparr>update_previousLists = previousLists\<rparr>))"

definition updateList_onError :: "cache \<Rightarrow> update_context option \<Rightarrow> cache" where
  "updateList_onError c context =
     (case context of
        None \<Rightarrow> c
      | Some ctx \<Rightarrow>
          (case update_previousLists ctx of
             Some pl \<Rightarrow> c\<lparr>lists_data := Some pl\<rparr>
           | None \<Rightarrow> c))"

record delete_context =
  delete_previousLists :: "List list option"
  delete_previousTasks :: "Task list option"

text \<open>
  \<^verbatim>\<open>task.listId !== id\<close>: a task without a list id (\<^verbatim>\<open>undefined\<close>) is kept.
\<close>

definition deleteList_onMutate :: "cache \<Rightarrow> int \<Rightarrow> cache \<times> delete_context" where
  "deleteList_onMutate c i =
     (let previousLists = lists_data c;
          previousTasks = tasks_data c;
          c1 = (case previousLists of
                  Some pl \<Rightarrow> c\<lparr>lists_data := Some (filter (\<lambda>l. list_id l \<noteq> i) pl)\<rparr>
                | None \<Rightarrow> c);
          c2 = (case previousTasks of
                  Some pt \<Rightarrow> c1\<lparr>tasks_data := Some (filter (\<lambda>task. task_listId task \<noteq> Some i) pt)\<rparr>
                | None \<Rightarrow> c1)
      in (c2, \<lparr>delete_previousLists = previousLists, delete_previousTasks = previousTasks\<rparr>))"

definition deleteList_onSuccess :: "cache \<Rightarrow> int \<Rightarrow> cache" where
  "deleteList_onSuccess c i =
     (let c1 = (case lists_data c of
                  Some currentLists \<Rightarrow> c\<lparr>lists_data := Some (filter (\<lambda>l. list_id l \<noteq> i) currentLists)\<rparr>
                | None \<Rightarrow> c)
      in (case tasks_data c1 of
            Some currentTasks \<Rightarrow>
              c1\<lparr>tasks_data := Some (filter (\<lambda>task. task_listId task \<noteq> Some i) currentTasks)\<rparr>
          | None \<Rightarrow> c1))"

definition deleteList_onError :: "cache \<Rightarrow> delete_context option \<Rightarrow> cache" where
  "deleteList_onError c context =
     (case context of
        None \<Rightarrow> c
      | Some ctx \<Rightarrow>
          (let c1 = (case delete_previousLists ctx of
                       Some pl \<Rightarrow> c\<lparr>lists_data := Some pl\<rparr>
                     | None \<Rightarrow> c)
           in (case delete_previousTasks ctx of
                 Some pt \<Rightarrow> c1\<lparr>tasks_data := Some pt\<rparr>
               | None \<Rightarrow> c1)))"

section \<open>Optimistic task creation: \<^verbatim>\<open>useCreateTask\<close>\<close>

record CreateTaskOptions =
  opt_text :: string
  opt_filter :: "string option"
  opt_tags :: "string list option"
  opt_listId :: "int option"

record create_task_context =
  create_previousTasks :: "Task list option"
  create_task_tempId :: int

definition createTask_onMutate ::
  "cache \<Rightarrow> CreateTaskOptions \<Rightarrow> int \<Rightarrow> string \<Rightarrow> string \<Rightarrow> cache \<times> create_task_context" where
  "createTask_onMutate c opts now iso1 iso2 =
     (let previousTasks = tasks_data c;
          tempId = now;
          optimisticTask =
            \<lparr>task_id = tempId, task_userId = 0, task_listId = opt_listId opts,
             task_text = opt_text opts,
             task_completed = (opt_filter opts = Some ''completed''),
             task_important = (opt_filter opts = Some ''important''),
             task_isExpanded = False,
             task_sortOrder = (case previousTasks of Some pt \<Rightarrow> int (length pt) + 1 | None \<Rightarrow> 1),
             task_tags = Some (case opt_tags opts of Some tg \<Rightarrow> tg | None \<Rightarrow> []),
             task_subtasks = Some [],
             task_createdAt = iso1, task_updatedAt = iso2\<rparr>
      in ((case previousTasks of
             Some pt \<Rightarrow> c\<lparr>tasks_data := Some (pt @ [optimisticTask])\<rparr>
           | None \<Rightarrow> c\<lparr>tasks_data := Some [optimisticTask]\<rparr>),
          \<lparr>create_previousTasks = previousTasks, create_task_tempId = tempId\<rparr>))"


section \<open>Optimistic subtask creation: \<^verbatim>\<open>useCreateSubtask\<close>\<close>

text \<open>
  The hook has \<^verbatim>\<open>onMutate\<close>, \<^verbatim>\<open>onError\<close> and \<^verbatim>\<open>onSettled\<close> (which invalidates the tasks
  query) and no \<^verbatim>\<open>onSuccess\<close>: the success response writes nothing to the cache.
\<close>

record create_subtask_context =
  create_subtask_previousTasks :: "Task list option"

definition createSubtask_onMutate ::
  "cache \<Rightarrow> int \<Rightarrow> string \<Rightarrow> int \<Rightarrow> string \<Rightarrow> cache \<times> create_subtask_context" where
  "createSubtask_onMutate c taskId txt now isoNow =
     (let previousTasks = tasks_data c
      in ((case previousTasks of
             Some pt \<Rightarrow>
               (let optimisticSubtask =
                      \<lparr>subtask_id = now, subtask_taskId = taskId, subtask_text = txt,
                       subtask_completed = False, subtask_sortOrder = 999,
                       subtask_createdAt = isoNow\<rparr>
                in c\<lparr>tasks_data := Some (map (\<lambda>task.
                       if task_id task = taskId
                       then task\<lparr>task_subtasks :=
                              Some ((case task_subtasks task of None \<Rightarrow> [] | Some ss \<Rightarrow> ss)
                                    @ [optimisticSubtask])\<rparr>
                       else task) pt)\<rparr>)
           | None \<Rightarrow> c),
          \<lparr>create_subtask_previousTasks = previousTasks\<rparr>))"

definition createSubtask_onError :: "cache \<Rightarrow> create_subtask_context option \<Rightarrow> cache" where
  "createSubtask_onError c context =
     (case context of
        None \<Rightarrow> c
      | Some ctx \<Rightarrow>
          (case create_subtask_previousTasks ctx of
             Some pt \<Rightarrow> c\<lparr>tasks_data := Some pt\<rparr>
           | None \<Rightarrow> c))"

section \<open>Example entities\<close>

definition exampleList :: "int \<Rightarrow> string \<Rightarrow> List" where
  "exampleList i title =
     \<lparr>list_id = i, list_userId = 7, list_title = title,
      list_createdAt = ''2024-01-01T00:00:00.000Z'', list_updatedAt = ''2024-01-01T00:00:00.000Z''\<rparr>"

definition exampleTask :: "int \<Rightarrow> int option \<Rightarrow> string \<Rightarrow> Task" where
  "exampleTask i l txt =
     \<lparr>task_id = i, task_userId = 7, task_listId = l, task_text = txt,
      task_completed = False, task_important = False, task_isExpanded = False,
      task_sortOrder = 0, task_tags = Some [], task_subtasks = Some [],
      task_createdAt = ''2024-01-01T00:00:00.000Z'', task_updatedAt = ''2024-01-01T00:00:00.000Z''\<rparr>"


section \<open>Schedules of one optimistic mutation\<close>






text \<open>The ids of the subtasks of the cached task with id \<open>taskId\<close> (of each such task).\<close>

definition subtask_ids_of :: "cache \<Rightarrow> int \<Rightarrow> int list list" where
  "subtask_ids_of c taskId =
     map (\<lambda>task. map subtask_id (case task_subtasks task of None \<Rightarrow> [] | Some ss \<Rightarrow> ss))
       (filter (\<lambda>task. task_id task = taskId)
          (case tasks_data c of None \<Rightarrow> [] | Some ts \<Rightarrow> ts))"

definition createList_failedRequest ::
  "cache \<Rightarrow> string \<Rightarrow> int \<Rightarrow> string \<Rightarrow> string \<Rightarrow> cache" where
  "createList_failedRequest c title now iso1 iso2 =
     (let (c1, ctx) = createList_onMutate c title now iso1 iso2
      in createList_onError c1 (Some ctx))"

definition updateList_failedRequest ::
  "cache \<Rightarrow> int \<Rightarrow> string \<Rightarrow> (nat \<Rightarrow> string) \<Rightarrow> cache" where
  "updateList_failedRequest c i title isoAt =
     (let (c1, ctx) = updateList_onMutate c i title isoAt
      in updateList_onError c1 (Some ctx))"

definition deleteList_failedRequest :: "cache \<Rightarrow> int \<Rightarrow> cache" where
  "deleteList_failedRequest c i =
     (let (c1, ctx) = deleteList_onMutate c i
      in deleteList_onError c1 (Some ctx))"


section \<open>Auth refresh coordinator: the response interceptor of \<^verbatim>\<open>api/client.ts\<close>\<close>

text \<open>
  The browser runs the client on one event loop: the interceptor runs from a failed
  response to its first \<^verbatim>\<open>await\<close> (of the refresh request) without interruption, and the
  rest of it runs, again without interruption, when the refresh request settles. The
  model is a state and one step per arrival. Beside the module's own variables
  (\<^verbatim>\<open>isRefreshing\<close>, \<^verbatim>\<open>failedQueue\<close>) and \<^verbatim>\<open>localStorage\<close>, the state records what the code
  does to the outside: the refresh requests it has issued and that have not settled, the
  requests it re-issues with \<^verbatim>\<open>api(config)\<close>, and the promises it rejects.
\<close>

text \<open>
  A request config: \<open>req_id\<close> names the call the config belongs to (the caller's promise),
  \<open>retry\<close> is the \<^verbatim>\<open>_retry\<close> mark (absent reads as false), \<open>authorization\<close> the
  \<^verbatim>\<open>Authorization\<close> header.
\<close>

record request_config =
  req_id :: nat
  url :: "string option"
  retry :: bool
  authorization :: "string option"

record axios_error =
  status :: "nat option"
  config :: "request_config option"

record local_storage =
  token :: "string option"
  refreshToken :: "string option"
  offlineCache :: "string option"

record client_state =
  isRefreshing :: bool
  failedQueue :: "request_config list"
  storage :: local_storage
  pathname :: string
  refreshPosts :: "(request_config \<times> string) list"
  refreshCalls :: nat
  sent :: "request_config list"
  rejected :: "request_config option list"
  reloads :: nat

text \<open>
  \<open>refreshPosts\<close>: one entry per interceptor invocation suspended at
  \<^verbatim>\<open>await axios.post(.../api/auth/refresh)\<close>, with the \<^verbatim>\<open>originalRequest\<close> and the refresh
  token it captured; \<open>refreshCalls\<close> counts the refresh requests ever issued. The refresh
  request goes through the bare \<^verbatim>\<open>axios\<close>, not through \<^verbatim>\<open>api\<close>, so its own failure never
  re-enters the interceptor.
\<close>

text \<open>JavaScript truthiness of what \<^verbatim>\<open>localStorage.getItem\<close> returns: a non-empty string.\<close>

definition truthy :: "string option \<Rightarrow> bool" where
  "truthy v = (case v of None \<Rightarrow> False | Some s \<Rightarrow> s \<noteq> [])"

text \<open>\<^verbatim>\<open>s.includes(sub)\<close>\<close>

definition includes_str :: "string \<Rightarrow> string \<Rightarrow> bool" where
  "includes_str s sub = sublist sub s"

definition handleAuthFailure :: "client_state \<Rightarrow> client_state" where
  "handleAuthFailure s =
     (let hadToken = token (storage s);
          s1 = s\<lparr>storage := \<lparr>token = None, refreshToken = None, offlineCache = None\<rparr>\<rparr>
      in if truthy hadToken \<and> \<not> includes_str (pathname s) ''/login''
         then s1\<lparr>reloads := reloads s1 + 1\<rparr> else s1)"

text \<open>
  \<^verbatim>\<open>api(config)\<close>: the request interceptor puts the stored token, when there is one, into the
  \<^verbatim>\<open>Authorization\<close> header and the request goes out. (The interceptor runs in a microtask
  of the same turn; nothing writes \<^verbatim>\<open>localStorage\<close> in between.)
\<close>

definition api_call :: "request_config \<Rightarrow> client_state \<Rightarrow> client_state" where
  "api_call cfg s =
     s\<lparr>sent := sent s @
        [if truthy (token (storage s))
         then cfg\<lparr>authorization := Some (''Bearer '' @ the (token (storage s)))\<rparr>
         else cfg]\<rparr>"

definition reject_call :: "request_config option \<Rightarrow> client_state \<Rightarrow> client_state" where
  "reject_call cfg s = s\<lparr>rejected := rejected s @ [cfg]\<rparr>"

text \<open>\<^verbatim>\<open>processQueue(error)\<close>; the flag says whether an error was passed.\<close>

definition processQueue :: "bool \<Rightarrow> client_state \<Rightarrow> client_state" where
  "processQueue error s =
     (fold (\<lambda>cfg st. if error then reject_call (Some cfg) st else api_call cfg st)
           (failedQueue s) s)
     \<lparr>failedQueue := []\<rparr>"

text \<open>The interceptor from its entry to the \<^verbatim>\<open>await\<close>.\<close>

definition onResponseError :: "axios_error \<Rightarrow> client_state \<Rightarrow> client_state" where
  "onResponseError err s =
     (case config err of
        None \<Rightarrow> reject_call None s
      | Some originalRequest \<Rightarrow>
          if status err \<noteq> Some 401 then reject_call (Some originalRequest) s
          else if retry originalRequest
                  \<or> (case url originalRequest of
                        None \<Rightarrow> False
                      | Some u \<Rightarrow> includes_str u ''/api/auth/refresh'')
          then reject_call (Some originalRequest) (handleAuthFailure s)
          else if \<not> truthy (refreshToken (storage s))
          then reject_call (Some originalRequest) (handleAuthFailure s)
          else if isRefreshing s
          then s\<lparr>failedQueue := failedQueue s @ [originalRequest]\<rparr>
          else s\<lparr>isRefreshing := True,
                 refreshCalls := refreshCalls s + 1,
                 refreshPosts := refreshPosts s
                    @ [(originalRequest\<lparr>retry := True\<rparr>, the (refreshToken (storage s)))]\<rparr>)"

text \<open>
  The interceptor after the \<^verbatim>\<open>await\<close>, when the refresh request has succeeded with
  \<^verbatim>\<open>{accessToken, refreshToken}\<close>: the \<^verbatim>\<open>try\<close> block and \<^verbatim>\<open>finally\<close>. The oldest suspended
  invocation resumes.
\<close>

definition onRefreshResolved :: "string \<Rightarrow> string \<Rightarrow> client_state \<Rightarrow> client_state" where
  "onRefreshResolved accessToken newRefreshToken s =
     (case refreshPosts s of
        [] \<Rightarrow> s
      | (originalRequest, usedToken) # others \<Rightarrow>
          (let s1 = s\<lparr>refreshPosts := others,
                      storage := (storage s)\<lparr>token := Some accessToken,
                                             refreshToken := Some newRefreshToken\<rparr>\<rparr>;
               originalRequest' =
                 originalRequest\<lparr>authorization := Some (''Bearer '' @ accessToken)\<rparr>;
               s2 = processQueue False s1;
               s3 = api_call originalRequest' s2
           in s3\<lparr>isRefreshing := False\<rparr>))"

text \<open>The same when the refresh request has failed: the \<^verbatim>\<open>catch\<close> block and \<^verbatim>\<open>finally\<close>.\<close>

definition onRefreshRejected :: "client_state \<Rightarrow> client_state" where
  "onRefreshRejected s =
     (case refreshPosts s of
        [] \<Rightarrow> s
      | (originalRequest, usedToken) # others \<Rightarrow>
          (let s1 = processQueue True (s\<lparr>refreshPosts := others\<rparr>);
               s2 = handleAuthFailure s1;
               s3 = reject_call (Some originalRequest) s2
           in s3\<lparr>isRefreshing := False\<rparr>))"

datatype arrival =
    ResponseError axios_error
  | RefreshResolved string string
  | RefreshRejected

fun client_step :: "client_state \<Rightarrow> arrival \<Rightarrow> client_state" where
  "client_step s (ResponseError err) = onResponseError err s"
| "client_step s (RefreshResolved accessToken newRefreshToken) =
     onRefreshResolved accessToken newRefreshToken s"
| "client_step s RefreshRejected = onRefreshRejected s"

definition client_run :: "client_state \<Rightarrow> arrival list \<Rightarrow> client_state" where
  "client_run s arrivals = foldl client_step s arrivals"

text \<open>
  The refresh requests in flight are as many as \<^verbatim>\<open>isRefreshing\<close> says: one while it is set,
  none otherwise.
\<close>

definition single_flight :: "client_state \<Rightarrow> bool" where
  "single_flight s = (length (refreshPosts s) = (if isRefreshing s then 1 else 0))"

text \<open>The module as loaded, with the given stored credentials.\<close>

definition client_init :: "string option \<Rightarrow> string option \<Rightarrow> string \<Rightarrow> client_state" where
  "client_init tok rtok path =
     \<lparr>isRefreshing = False, failedQueue = [],
      storage = \<lparr>token = tok, refreshToken = rtok, offlineCache = None\<rparr>,
      pathname = path, refreshPosts = [], refreshCalls = 0, sent = [], rejected = [],
      reloads = 0\<rparr>"

text \<open>A response with status 401 for the request with config \<open>cfg\<close>.\<close>

definition unauthorized :: "request_config \<Rightarrow> arrival" where
  "unauthorized cfg = ResponseError \<lparr>status = Some 401, config = Some cfg\<rparr>"

definition targets_refresh :: "request_config \<Rightarrow> bool" where
  "targets_refresh cfg =
     (case url cfg of None \<Rightarrow> False | Some u \<Rightarrow> includes_str u ''/api/auth/refresh'')"

definition with_bearer :: "string \<Rightarrow> request_config \<Rightarrow> request_config" where
  "with_bearer tok cfg = cfg\<lparr>authorization := Some (''Bearer '' @ tok)\<rparr>"

definition exampleRequest :: "nat \<Rightarrow> string \<Rightarrow> request_config" where
  "exampleRequest n u =
     \<lparr>req_id = n, url = Some u, retry = False, authorization = Some ''Bearer old''\<rparr>"

section \<open>The backend's answer to the refresh request\<close>








section \<open>Connection registry: \<^verbatim>\<open>Hub.Run\<close>\<close>

text \<open>
  A Go channel of byte slices: its capacity, the buffered messages (oldest first) and
  whether it has been closed. Sending on a closed channel and closing a closed channel
  panic; both are results of the model.
\<close>

datatype go_panic = send_on_closed_channel | close_of_closed_channel

record chan =
  cap :: nat
  buf :: "string list"
  closed :: bool

text \<open>\<^verbatim>\<open>make(chan []byte, 256)\<close> in \<^verbatim>\<open>handleWebSocket\<close>\<close>

definition make_send_chan :: chan where
  "make_send_chan = \<lparr>cap = 256, buf = [], closed = False\<rparr>"

text \<open>
  \<^verbatim>\<open>select { case ch <- m: default: }\<close>: the send happens when the buffer has room, otherwise
  the default branch runs. The boolean says which.
\<close>

definition chan_try_send :: "chan \<Rightarrow> string \<Rightarrow> go_panic + (bool \<times> chan)" where
  "chan_try_send ch m =
     (if closed ch then Inl send_on_closed_channel
      else if length (buf ch) < cap ch then Inr (True, ch\<lparr>buf := buf ch @ [m]\<rparr>)
      else Inr (False, ch))"

definition chan_close :: "chan \<Rightarrow> go_panic + chan" where
  "chan_close ch =
     (if closed ch then Inl close_of_closed_channel else Inr (ch\<lparr>closed := True\<rparr>))"

text \<open>
  A \<^verbatim>\<open>*Client\<close> is an address (a number); \<open>client_at\<close> is the memory holding the \<^verbatim>\<open>Client\<close>
  structs (the fields the hub reads). \<open>clients\<close> is \<^verbatim>\<open>map[int64]map[*Client]bool\<close>: the inner
  map is only ever given \<^verbatim>\<open>true\<close> values, so it is a set of addresses, kept as a list
  without repetitions. Go ranges over a map in an unspecified order: the order of the list
  stands for it, and nothing below depends on it.
\<close>

record Client =
  userID :: int
  send :: chan

record Hub =
  clients :: "int \<rightharpoonup> nat list"
  client_at :: "nat \<Rightarrow> Client"

definition NewHub :: "(nat \<Rightarrow> Client) \<Rightarrow> Hub" where
  "NewHub mem = \<lparr>clients = Map.empty, client_at = mem\<rparr>"

definition set_send :: "Hub \<Rightarrow> nat \<Rightarrow> chan \<Rightarrow> Hub" where
  "set_send h c ch = h\<lparr>client_at := (client_at h)(c := (client_at h c)\<lparr>send := ch\<rparr>)\<rparr>"

text \<open>\<^verbatim>\<open>h.clients[u]\<close> as a set: \<^verbatim>\<open>nil\<close> behaves as the empty map when read or ranged over.\<close>

definition connections :: "Hub \<Rightarrow> int \<Rightarrow> nat list" where
  "connections h u = (case clients h u of None \<Rightarrow> [] | Some cs \<Rightarrow> cs)"

text \<open>\<^verbatim>\<open>case client := <-h.register\<close>\<close>

definition hub_register :: "nat \<Rightarrow> Hub \<Rightarrow> Hub" where
  "hub_register client h =
     (let u = userID (client_at h client);
          cs = (case clients h u of None \<Rightarrow> [] | Some cs \<Rightarrow> cs)
      in h\<lparr>clients := (clients h)(u \<mapsto> (if client \<in> set cs then cs else cs @ [client]))\<rparr>)"

text \<open>\<^verbatim>\<open>case client := <-h.unregister\<close>\<close>

definition hub_unregister :: "nat \<Rightarrow> Hub \<Rightarrow> go_panic + Hub" where
  "hub_unregister client h =
     (let u = userID (client_at h client)
      in case clients h u of
           None \<Rightarrow> Inr h
         | Some cs \<Rightarrow>
             if client \<in> set cs then
               (let cs' = removeAll client cs;
                    h1 = h\<lparr>clients := (clients h)(u \<mapsto> cs')\<rparr>
                in case chan_close (send (client_at h1 client)) of
                     Inl p \<Rightarrow> Inl p
                   | Inr ch \<Rightarrow>
                       (let h2 = set_send h1 client ch
                        in if length cs' = 0
                           then Inr (h2\<lparr>clients := (clients h2)(u := None)\<rparr>)
                           else Inr h2))
             else Inr h)"

text \<open>
  The body of the loop \<^verbatim>\<open>for client := range clients\<close> of the broadcast case, for one
  client: the non-blocking send, and in the default branch
  \<^verbatim>\<open>delete(h.clients[msg.userID], client); close(client.send)\<close>.
\<close>

definition broadcast_one :: "int \<Rightarrow> string \<Rightarrow> nat \<Rightarrow> Hub \<Rightarrow> go_panic + Hub" where
  "broadcast_one u message client h =
     (case chan_try_send (send (client_at h client)) message of
        Inl p \<Rightarrow> Inl p
      | Inr (True, ch) \<Rightarrow> Inr (set_send h client ch)
      | Inr (False, ch) \<Rightarrow>
          (let h1 = (case clients h u of
                       None \<Rightarrow> h
                     | Some cur \<Rightarrow> h\<lparr>clients := (clients h)(u \<mapsto> removeAll client cur)\<rparr>)
           in case chan_close (send (client_at h1 client)) of
                Inl p \<Rightarrow> Inl p
              | Inr ch' \<Rightarrow> Inr (set_send h1 client ch')))"

fun broadcast_loop :: "int \<Rightarrow> string \<Rightarrow> nat list \<Rightarrow> Hub \<Rightarrow> go_panic + Hub" where
  "broadcast_loop u message [] h = Inr h"
| "broadcast_loop u message (client # rest) h =
     (case broadcast_one u message client h of
        Inl p \<Rightarrow> Inl p
      | Inr h' \<Rightarrow> broadcast_loop u message rest h')"

text \<open>\<^verbatim>\<open>case msg := <-h.broadcast\<close>\<close>

definition hub_broadcast :: "int \<Rightarrow> string \<Rightarrow> Hub \<Rightarrow> go_panic + Hub" where
  "hub_broadcast u message h = broadcast_loop u message (connections h u) h"

datatype hub_message = Register nat | Unregister nat | Broadcast int string

fun hub_step :: "Hub \<Rightarrow> hub_message \<Rightarrow> go_panic + Hub" where
  "hub_step h (Register client) = Inr (hub_register client h)"
| "hub_step h (Unregister client) = hub_unregister client h"
| "hub_step h (Broadcast u message) = hub_broadcast u message h"

text \<open>The loop of \<^verbatim>\<open>Run\<close> over the messages it receives, stopping at a panic.\<close>

fun hub_run :: "Hub \<Rightarrow> hub_message list \<Rightarrow> go_panic + Hub" where
  "hub_run h [] = Inr h"
| "hub_run h (m # ms) = (case hub_step h m of Inl p \<Rightarrow> Inl p | Inr h' \<Rightarrow> hub_run h' ms)"

text \<open>
  What the registry keeps true of itself: a registered client is registered once and its
  channel is open (the hub closes a channel only together with removing the client).
\<close>

definition registered_open :: "Hub \<Rightarrow> bool" where
  "registered_open h =
     (\<forall>u cs. clients h u = Some cs \<longrightarrow>
        distinct cs \<and> (\<forall>c\<in>set cs. \<not> closed (send (client_at h c))))"

text \<open>
  The registry's invariant in full: each connection set has no repetition, and every
  connection in the set of user \<open>u\<close> has an open channel and belongs to \<open>u\<close>. It holds of
  a new hub and every step of \<^verbatim>\<open>Run\<close> keeps it, registration being of a client whose
  channel is open (\<^verbatim>\<open>handleWebSocket\<close> registers the client it has just made). Under it no
  step panics.
\<close>

definition hub_inv :: "Hub \<Rightarrow> bool" where
  "hub_inv h =
     (\<forall>u cs. clients h u = Some cs \<longrightarrow>
        distinct cs \<and>
        (\<forall>c\<in>set cs. \<not> closed (send (client_at h c)) \<and> userID (client_at h c) = u))"

text \<open>No user id maps to an empty connection set.\<close>

definition no_empty_sets :: "Hub \<Rightarrow> bool" where
  "no_empty_sets h = (\<forall>u. clients h u \<noteq> Some [])"

definition chan_full :: "chan \<Rightarrow> bool" where
  "chan_full ch = (\<not> length (buf ch) < cap ch)"

text \<open>
  What one pass of the loop body does to the \<^verbatim>\<open>Client\<close> it visits, given that its channel
  is open: a full channel is closed, any other gets the message appended.
\<close>

definition after_publish :: "string \<Rightarrow> Client \<Rightarrow> Client" where
  "after_publish m cl =
     (if chan_full (send cl) then cl\<lparr>send := (send cl)\<lparr>closed := True\<rparr>\<rparr>
      else cl\<lparr>send := (send cl)\<lparr>buf := buf (send cl) @ [m]\<rparr>\<rparr>)"

text \<open>A hub for the examples: the client at address \<open>n\<close> belongs to the user in \<open>owner n\<close>.\<close>

definition exampleHub :: "(int \<times> nat list) list \<Rightarrow> (nat \<Rightarrow> int) \<Rightarrow> (nat \<Rightarrow> string list) \<Rightarrow> Hub" where
  "exampleHub reg owner queued =
     \<lparr>clients = map_of reg,
      client_at = (\<lambda>n. \<lparr>userID = owner n,
                        send = \<lparr>cap = 256, buf = queued n, closed = False\<rparr>\<rparr>)\<rparr>"

text \<open>
  A client as \<^verbatim>\<open>handleWebSocket\<close> creates it for user 1, whose \<^verbatim>\<open>writePump\<close> does not get to
  read from the queue.
\<close>

definition slowConsumer :: "nat \<Rightarrow> Client" where
  "slowConsumer n = \<lparr>userID = 1, send = make_send_chan\<rparr>"

section \<open>Create: REST response and broadcast in either order\<close>







section \<open>Rollback of a failed list mutation\<close>

lemma failed_mutation_rolls_back_when_cached:
  "(lists_data c \<noteq> None \<longrightarrow> createList_failedRequest c title now iso1 iso2 = c)
   \<and> updateList_failedRequest c i title' isoAt = c
   \<and> deleteList_failedRequest c j = c"
  by (auto simp: createList_failedRequest_def createList_onMutate_def createList_onError_def
      updateList_failedRequest_def updateList_onMutate_def updateList_onError_def
      deleteList_failedRequest_def deleteList_onMutate_def deleteList_onError_def
      Let_def split: option.splits)

text \<open>
  Claim C2 says that the error handler of a failed optimistic mutation restores the cache
  to what it was before the mutation, for every cache, one without lists data included.
  A create is issued while the lists query has no data. \<^verbatim>\<open>onMutate\<close> handles that case
  and stores the one-element collection; the snapshot \<^verbatim>\<open>previousLists\<close> is \<^verbatim>\<open>undefined\<close>,
  and \<^verbatim>\<open>onError\<close>, which restores only under \<^verbatim>\<open>if (context?.previousLists)\<close>, leaves the
  optimistic entry in the cache: the cache after the rollback is not the cache before the
  mutation. (Update and delete restore in every state, and a create on a cached
  collection does: \<open>failed_mutation_rolls_back_when_cached\<close>.)
\<close>

theorem C2_failed_create_on_absent_lists_not_rolled_back:
  "createList_failedRequest \<lparr>tasks_data = None, lists_data = None\<rparr>
       ''work'' 1700000000000 ''t1'' ''t2''
     = \<lparr>tasks_data = None,
        lists_data = Some [\<lparr>list_id = 1700000000000, list_userId = 0, list_title = ''work'',
                            list_createdAt = ''t1'', list_updatedAt = ''t2''\<rparr>]\<rparr>
   \<and> createList_failedRequest \<lparr>tasks_data = None, lists_data = None\<rparr>
       ''work'' 1700000000000 ''t1'' ''t2''
     \<noteq> \<lparr>tasks_data = None, lists_data = None\<rparr>"
  by (simp add: createList_failedRequest_def createList_onMutate_def createList_onError_def)

section \<open>A \<^verbatim>\<open>list_deleted\<close> envelope and the tasks of the list\<close>

lemma list_deleted_keeps_tasks:
  "tasks_data (handleWebSocketEvent c (list_deleted i)) = tasks_data c"
  by (simp add: handleWebSocketEvent_def split: option.splits)

text \<open>
  Claim C4 says that a \<^verbatim>\<open>list_deleted\<close> envelope for list 1 removes list 1 and every task whose
  \<^verbatim>\<open>listId\<close> is 1. The envelope handler filters the lists collection only: the task of list 1
  is still cached afterwards. (The cascade is written in \<^verbatim>\<open>useDeleteList\<close>, which only the
  session that issued the delete runs.)
\<close>

theorem C4_list_deleted_leaves_tasks_of_list:
  "handleWebSocketEvent
     \<lparr>tasks_data = Some [exampleTask 10 (Some 1) ''buy milk'', exampleTask 11 None ''call''],
      lists_data = Some [exampleList 1 ''home'', exampleList 2 ''work'']\<rparr> (list_deleted 1)
   = \<lparr>tasks_data = Some [exampleTask 10 (Some 1) ''buy milk'', exampleTask 11 None ''call''],
      lists_data = Some [exampleList 2 ''work'']\<rparr>
   \<and> task_listId (exampleTask 10 (Some 1) ''buy milk'') = Some 1"
  by (simp add: handleWebSocketEvent_def exampleList_def exampleTask_def)

section \<open>Temporary ids\<close>

text \<open>
  Claim C7 says a temporary id never equals a server-assigned id, so ids stay unique. The
  temporary id is \<^verbatim>\<open>Date.now()\<close>, a positive integer like the row ids the server assigns:
  with a cached list whose id is the clock reading, the optimistic create stores a second
  entry with the same id.
\<close>

theorem C7_temp_id_collides_counterexample:
  "create_tempId (snd (createList_onMutate
      \<lparr>tasks_data = None, lists_data = Some [exampleList 1700000000000 ''home'']\<rparr>
      ''work'' 1700000000000 ''t1'' ''t2''))
     = list_id (exampleList 1700000000000 ''home'')
   \<and> map list_id (the (lists_data (fst (createList_onMutate
      \<lparr>tasks_data = None, lists_data = Some [exampleList 1700000000000 ''home'']\<rparr>
      ''work'' 1700000000000 ''t1'' ''t2''))))
     = [1700000000000, 1700000000000]
   \<and> \<not> distinct (map list_id (the (lists_data (fst (createList_onMutate
      \<lparr>tasks_data = None, lists_data = Some [exampleList 1700000000000 ''home'']\<rparr>
      ''work'' 1700000000000 ''t1'' ''t2'')))))"
  by (simp add: createList_onMutate_def exampleList_def)

lemma subtask_ids_append:
  "map (\<lambda>task. map subtask_id (case task_subtasks task of None \<Rightarrow> [] | Some ss \<Rightarrow> ss))
          (filter (\<lambda>task. task_id task = taskId)
             (map (\<lambda>task. if task_id task = taskId
                     then task\<lparr>task_subtasks :=
                            Some ((case task_subtasks task of None \<Rightarrow> [] | Some ss \<Rightarrow> ss) @ [sub])\<rparr>
                     else task) ts))
      = map (\<lambda>old. old @ [subtask_id sub])
          (map (\<lambda>task. map subtask_id (case task_subtasks task of None \<Rightarrow> [] | Some ss \<Rightarrow> ss))
             (filter (\<lambda>task. task_id task = taskId) ts))"
  by (induction ts) auto

lemma subtask_ids_after_create:
  "subtask_ids_of (fst (createSubtask_onMutate c taskId txt now isoNow)) taskId
     = map (\<lambda>old. old @ [now]) (subtask_ids_of c taskId)"
proof (cases "tasks_data c")
  case None
  then show ?thesis by (simp add: subtask_ids_of_def createSubtask_onMutate_def)
next
  case (Some pt)
  let ?sub = "\<lparr>subtask_id = now, subtask_taskId = taskId, subtask_text = txt,
                       subtask_completed = False, subtask_sortOrder = 999,
                       subtask_createdAt = isoNow\<rparr>"
  have r: "tasks_data (fst (createSubtask_onMutate c taskId txt now isoNow))
      = Some (map (\<lambda>task. if task_id task = taskId
                     then task\<lparr>task_subtasks :=
                            Some ((case task_subtasks task of None \<Rightarrow> [] | Some ss \<Rightarrow> ss) @ [?sub])\<rparr>
                     else task) pt)"
    using Some by (simp add: createSubtask_onMutate_def)
  have "subtask_id ?sub = now" by simp
  with subtask_ids_append[of taskId ?sub pt] show ?thesis
    unfolding subtask_ids_of_def r Some by (simp only: option.case)
qed

text \<open>
  Claim C7, amended. The temporary id of an optimistic list, task or subtask create is the
  clock reading \<open>now\<close>, whatever number that is. The create appends one entry with that id
  to the collection (for a subtask: to the subtasks of each cached task with the given
  task id), so the ids of the collection are pairwise different afterwards exactly when
  they were before and the clock reading is the id of no entry already there.
\<close>

theorem C7_temp_id_unique_iff_clock_fresh:
  "create_tempId (snd (createList_onMutate c title now iso1 iso2)) = now
   \<and> map list_id (collection (lists_data (fst (createList_onMutate c title now iso1 iso2))))
       = map list_id (collection (lists_data c)) @ [now]
   \<and> (distinct (map list_id (collection (lists_data (fst (createList_onMutate c title now iso1 iso2)))))
        \<longleftrightarrow> distinct (map list_id (collection (lists_data c)))
             \<and> now \<notin> set (map list_id (collection (lists_data c))))
   \<and> create_task_tempId (snd (createTask_onMutate c opts now iso1 iso2)) = now
   \<and> map task_id (collection (tasks_data (fst (createTask_onMutate c opts now iso1 iso2))))
       = map task_id (collection (tasks_data c)) @ [now]
   \<and> (distinct (map task_id (collection (tasks_data (fst (createTask_onMutate c opts now iso1 iso2)))))
        \<longleftrightarrow> distinct (map task_id (collection (tasks_data c)))
             \<and> now \<notin> set (map task_id (collection (tasks_data c))))
   \<and> subtask_ids_of (fst (createSubtask_onMutate c taskId txt now isoNow)) taskId
       = map (\<lambda>old. old @ [now]) (subtask_ids_of c taskId)
   \<and> (list_all distinct (subtask_ids_of (fst (createSubtask_onMutate c taskId txt now isoNow)) taskId)
        \<longleftrightarrow> list_all (\<lambda>old. distinct old \<and> now \<notin> set old) (subtask_ids_of c taskId))"
proof -
  have l: "map list_id (collection (lists_data (fst (createList_onMutate c title now iso1 iso2))))
       = map list_id (collection (lists_data c)) @ [now]"
    by (simp add: createList_onMutate_def collection_def Let_def split: option.splits)
  have t: "map task_id (collection (tasks_data (fst (createTask_onMutate c opts now iso1 iso2))))
       = map task_id (collection (tasks_data c)) @ [now]"
    by (simp add: createTask_onMutate_def collection_def Let_def split: option.splits)
  have i: "create_tempId (snd (createList_onMutate c title now iso1 iso2)) = now"
    "create_task_tempId (snd (createTask_onMutate c opts now iso1 iso2)) = now"
    by (simp_all add: createList_onMutate_def createTask_onMutate_def Let_def)
  have d: "distinct (xs @ [now]) \<longleftrightarrow> distinct xs \<and> now \<notin> set xs" for xs :: "int list"
    by auto
  have s: "list_all distinct (map (\<lambda>old. old @ [now]) xss)
        \<longleftrightarrow> list_all (\<lambda>old. distinct old \<and> now \<notin> set old) xss" for xss :: "int list list"
    by (induction xss) auto
  show ?thesis
    by (simp only: l t i d s subtask_ids_after_create)
qed


section \<open>Reordering\<close>


lemma find_app: "find P (xs @ ys) = (case find P xs of None \<Rightarrow> find P ys | Some x \<Rightarrow> Some x)"
  by (induction xs) auto

lemma find_Some_mem: "find P xs = Some x \<Longrightarrow> P x \<and> x \<in> set xs"
  by (induction xs) (auto split: if_splits)

lemma fold_upd_find:
  "fold (\<lambda>t m. m(task_id t \<mapsto> t)) ts m i =
     (case find (\<lambda>t. task_id t = i) (rev ts) of Some t \<Rightarrow> Some t | None \<Rightarrow> m i)"
  by (induction ts arbitrary: m) (auto simp: find_app split: option.splits)

lemma taskMap_find: "taskMap ts i = find (\<lambda>t. task_id t = i) (rev ts)"
  by (simp add: taskMap_def fold_upd_find split: option.splits)

lemma taskMap_SomeD: "taskMap ts i = Some t \<Longrightarrow> task_id t = i \<and> t \<in> set ts"
  using find_Some_mem[of "\<lambda>t. task_id t = i" "rev ts" t] by (simp add: taskMap_find)

lemma taskMap_None_iff: "taskMap ts i = None \<longleftrightarrow> i \<notin> task_id ` set ts"
  by (auto simp: taskMap_find find_None_iff)

lemma reorderedFrom_Nil: "reorderedFrom n ts [] = []"
  by (simp add: reorderedFrom_def)

lemma reorderedFrom_Cons: "reorderedFrom n ts (i # is) =
   (case taskMap ts i of Some task \<Rightarrow> [task\<lparr>task_sortOrder := int n\<rparr>] | None \<Rightarrow> []) @ reorderedFrom (Suc n) ts is"
  by (simp add: reorderedFrom_def split: option.splits)

lemma reorderedFrom_ids:
  "map task_id (reorderedFrom n ts T) = filter (\<lambda>i. i \<in> task_id ` set ts) T"
proof (induction T arbitrary: n)
  case Nil
  show ?case by (simp add: reorderedFrom_Nil)
next
  case (Cons i T)
  show ?case
  proof (cases "taskMap ts i")
    case None
    then have "i \<notin> task_id ` set ts" by (simp add: taskMap_None_iff)
    with None Cons show ?thesis by (simp add: reorderedFrom_Cons)
  next
    case (Some t)
    then have "task_id t = i" "i \<in> task_id ` set ts"
      using taskMap_SomeD[OF Some] by auto
    with Some Cons show ?thesis by (simp add: reorderedFrom_Cons)
  qed
qed

lemma reorderedFrom_elem:
  "r \<in> set (reorderedFrom n ts T) \<Longrightarrow>
     \<exists>t k. taskMap ts (task_id r) = Some t \<and> r = t\<lparr>task_sortOrder := k\<rparr> \<and> task_id r \<in> set T"
proof (induction T arbitrary: n)
  case Nil
  then show ?case by (simp add: reorderedFrom_Nil)
next
  case (Cons i T)
  show ?case
  proof (cases "taskMap ts i")
    case None
    with Cons.prems have "r \<in> set (reorderedFrom (Suc n) ts T)"
      by (simp add: reorderedFrom_Cons)
    from Cons.IH[OF this] show ?thesis by auto
  next
    case (Some t)
    with Cons.prems have "r = t\<lparr>task_sortOrder := int n\<rparr> \<or> r \<in> set (reorderedFrom (Suc n) ts T)"
      by (simp add: reorderedFrom_Cons)
    then show ?thesis
    proof
      assume r: "r = t\<lparr>task_sortOrder := int n\<rparr>"
      have "task_id t = i" using taskMap_SomeD[OF Some] by simp
      with r Some show ?thesis by auto
    next
      assume "r \<in> set (reorderedFrom (Suc n) ts T)"
      from Cons.IH[OF this] show ?thesis by auto
    qed
  qed
qed

lemma reorderedFrom_nth:
  "set T \<subseteq> task_id ` set ts \<Longrightarrow> k < length T \<Longrightarrow>
     reorderedFrom n ts T ! k = (the (taskMap ts (T ! k)))\<lparr>task_sortOrder := int (n + k)\<rparr>"
proof (induction T arbitrary: n k)
  case Nil
  then show ?case by simp
next
  case (Cons i T)
  then obtain t where t: "taskMap ts i = Some t"
    using taskMap_None_iff[of ts i] by auto
  show ?case
  proof (cases k)
    case 0
    with t show ?thesis
      by (simp add: reorderedFrom_Cons)
  next
    case (Suc k')
    with Cons t show ?thesis
      by (simp add: reorderedFrom_Cons)
  qed
qed

lemma missingTasks_app: "missingTasks (xs @ ys) T = missingTasks xs T @ missingTasks ys T"
  by (simp add: missingTasks_def)

lemma missing_of_reordered: "missingTasks (reorderedFrom n ts T) T = []"
  using reorderedFrom_elem[of _ n ts T] by (auto simp: missingTasks_def filter_empty_conv)

lemma missing_idem: "missingTasks (missingTasks ts T) T = missingTasks ts T"
  by (simp add: missingTasks_def)

lemma taskMap_after:
  assumes "i \<in> set T"
  shows "\<exists>k. taskMap (reorderedFrom n ts T @ missingTasks ts T) i
            = map_option (\<lambda>t. t\<lparr>task_sortOrder := k\<rparr>) (taskMap ts i)"
proof -
  let ?R = "reorderedFrom n ts T"
  let ?P = "\<lambda>t. task_id t = i"
  have m: "find ?P (rev (missingTasks ts T)) = None"
    using assms by (auto simp: find_None_iff missingTasks_def)
  have eq: "taskMap (?R @ missingTasks ts T) i = find ?P (rev ?R)"
    by (simp add: taskMap_find find_app m)
  show ?thesis
  proof (cases "find ?P (rev ?R)")
    case None
    then have "i \<notin> task_id ` set ?R" by (auto simp: find_None_iff)
    then have "i \<notin> set (map task_id ?R)" by simp
    then have "i \<notin> task_id ` set ts" using assms by (simp add: reorderedFrom_ids)
    then have "taskMap ts i = None" by (simp add: taskMap_None_iff)
    with None eq show ?thesis by simp
  next
    case (Some r)
    then have r: "task_id r = i" "r \<in> set ?R"
      using find_Some_mem[OF Some] by auto
    from reorderedFrom_elem[OF r(2)] r(1) obtain t k where
      "taskMap ts i = Some t" "r = t\<lparr>task_sortOrder := k\<rparr>" by auto
    with Some eq show ?thesis by auto
  qed
qed

lemma reorderedFrom_cong:
  assumes "\<And>i. i \<in> set T \<Longrightarrow> \<exists>k. taskMap ts' i = map_option (\<lambda>t. t\<lparr>task_sortOrder := k\<rparr>) (taskMap ts i)"
  shows "reorderedFrom n ts' T = reorderedFrom n ts T"
  using assms
proof (induction T arbitrary: n)
  case Nil
  show ?case by (simp add: reorderedFrom_Nil)
next
  case (Cons i T)
  from Cons.prems[of i] obtain k where
    k: "taskMap ts' i = map_option (\<lambda>t. t\<lparr>task_sortOrder := k\<rparr>) (taskMap ts i)" by auto
  have "reorderedFrom (Suc n) ts' T = reorderedFrom (Suc n) ts T"
    using Cons.IH Cons.prems by simp
  with k show ?case by (simp add: reorderedFrom_Cons split: option.splits)
qed

lemma reordered_eq: "reorderedTasks ts T = reorderedFrom 0 ts T"
  by (simp add: reorderedTasks_def reorderedFrom_def)

lemma reorder_idem:
  "handleWebSocketEvent (handleWebSocketEvent c (tasks_reordered T)) (tasks_reordered T)
   = handleWebSocketEvent c (tasks_reordered T)"
proof (cases "tasks_data c")
  case None
  then show ?thesis by (simp add: handleWebSocketEvent_def)
next
  case (Some ts)
  let ?R = "reorderedFrom 0 ts T" and ?M = "missingTasks ts T"
  have 1: "reorderedFrom 0 (?R @ ?M) T = ?R"
    by (rule reorderedFrom_cong) (rule taskMap_after)
  have 2: "missingTasks (?R @ ?M) T = ?M"
    by (simp add: missingTasks_app missing_of_reordered missing_idem)
  from Some 1 2 show ?thesis
    by (simp add: handleWebSocketEvent_def reordered_eq)
qed

text \<open>
  Claim C3. A \<^verbatim>\<open>tasks_reordered\<close> envelope whose ids all name cached tasks (in particular one
  that names a strict subset of them): the new collection starts with the named tasks in
  the envelope's order, each the cached task with its \<^verbatim>\<open>sortOrder\<close> set to its position,
  followed by every task the envelope does not name, unchanged and in their previous
  relative order. And on any cache, with any id list, applying the same envelope a second
  time changes nothing.
\<close>

theorem C3_reorder_named_first_and_idempotent:
  assumes "tasks_data c = Some ts" and "set taskIds \<subseteq> task_id ` set ts"
  shows "(\<exists>named.
            tasks_data (handleWebSocketEvent c (tasks_reordered taskIds))
              = Some (named @ filter (\<lambda>t. task_id t \<notin> set taskIds) ts)
          \<and> map task_id named = taskIds
          \<and> (\<forall>k<length taskIds. \<exists>t\<in>set ts. task_id t = taskIds ! k
                  \<and> named ! k = t\<lparr>task_sortOrder := int k\<rparr>))
       \<and> (\<forall>c' ids. handleWebSocketEvent (handleWebSocketEvent c' (tasks_reordered ids))
                        (tasks_reordered ids)
                    = handleWebSocketEvent c' (tasks_reordered ids))"
proof -
  let ?named = "reorderedFrom 0 ts taskIds"
  have 1: "tasks_data (handleWebSocketEvent c (tasks_reordered taskIds))
              = Some (?named @ filter (\<lambda>t. task_id t \<notin> set taskIds) ts)"
    using assms(1) by (simp add: handleWebSocketEvent_def reordered_eq missingTasks_def)
  have "filter (\<lambda>i. i \<in> task_id ` set ts) taskIds = taskIds"
    using assms(2) by (auto simp: filter_id_conv)
  then have 2: "map task_id ?named = taskIds"
    by (simp add: reorderedFrom_ids)
  have 3: "\<exists>t\<in>set ts. task_id t = taskIds ! k \<and> ?named ! k = t\<lparr>task_sortOrder := int k\<rparr>"
    if k: "k < length taskIds" for k
  proof -
    from k assms(2) have "taskIds ! k \<in> task_id ` set ts" by auto
    then obtain t where t: "taskMap ts (taskIds ! k) = Some t"
      using taskMap_None_iff[of ts "taskIds ! k"] by auto
    from reorderedFrom_nth[OF assms(2) k, of 0] t
    have "?named ! k = t\<lparr>task_sortOrder := int k\<rparr>" by simp
    with taskMap_SomeD[OF t] show ?thesis by auto
  qed
  from 1 2 3 reorder_idem show ?thesis by blast
qed

theorem C3_reorder_named_first_and_idempotent_witness:
  "tasks_data \<lparr>tasks_data = Some [exampleTask 1 None ''a'', exampleTask 2 None ''b'', exampleTask 3 None ''c''],
              lists_data = None\<rparr>
     = Some [exampleTask 1 None ''a'', exampleTask 2 None ''b'', exampleTask 3 None ''c'']
   \<and> set [3, 1] \<subset> task_id ` set [exampleTask 1 None ''a'', exampleTask 2 None ''b'', exampleTask 3 None ''c'']
   \<and> tasks_data (handleWebSocketEvent
        \<lparr>tasks_data = Some [exampleTask 1 None ''a'', exampleTask 2 None ''b'', exampleTask 3 None ''c''],
         lists_data = None\<rparr> (tasks_reordered [3, 1]))
      = Some [(exampleTask 3 None ''c'')\<lparr>task_sortOrder := 0\<rparr>,
              (exampleTask 1 None ''a'')\<lparr>task_sortOrder := 1\<rparr>,
              exampleTask 2 None ''b'']"
proof -
  let ?ts = "[exampleTask 1 None ''a'', exampleTask 2 None ''b'', exampleTask 3 None ''c'']"
  let ?c = "\<lparr>tasks_data = Some ?ts, lists_data = None\<rparr>"
  have h1: "tasks_data ?c = Some ?ts" by simp
  have h2': "set [3, 1] \<subseteq> task_id ` set ?ts" by (simp add: exampleTask_def)
  have "(2::int) \<in> task_id ` set ?ts" "(2::int) \<notin> set [3, 1]" by (simp_all add: exampleTask_def)
  with h2' have h2: "set [3, 1] \<subset> task_id ` set ?ts" by blast
  have r: "tasks_data (handleWebSocketEvent ?c (tasks_reordered [3, 1]))
      = Some [(exampleTask 3 None ''c'')\<lparr>task_sortOrder := 0\<rparr>,
              (exampleTask 1 None ''a'')\<lparr>task_sortOrder := 1\<rparr>,
              exampleTask 2 None ''b'']"
    by (simp add: handleWebSocketEvent_def reorderedTasks_def missingTasks_def taskMap_def
        exampleTask_def)
  show ?thesis using C3_reorder_named_first_and_idempotent[OF h1 h2'] h1 h2 r by blast
qed

section \<open>Envelopes before the first tasks fetch\<close>

text \<open>
  Claim C10. When the tasks query has no data, applying any envelope (the three list
  envelopes included) returns the cache as it was: neither the tasks nor the lists entry
  changes.
\<close>

theorem C10_no_tasks_cache_frame:
  assumes "tasks_data c = None"
  shows "handleWebSocketEvent c event = c"
  using assms by (simp add: handleWebSocketEvent_def)

theorem C10_no_tasks_cache_frame_witness:
  "tasks_data \<lparr>tasks_data = None, lists_data = Some [\<lparr>list_id = 1, list_userId = 7, list_title = ''home'',
              list_createdAt = ''t0'', list_updatedAt = ''t0''\<rparr>]\<rparr> = None
   \<and> handleWebSocketEvent
        \<lparr>tasks_data = None, lists_data = Some [\<lparr>list_id = 1, list_userId = 7, list_title = ''home'',
              list_createdAt = ''t0'', list_updatedAt = ''t0''\<rparr>]\<rparr>
        (list_deleted 1)
      = \<lparr>tasks_data = None, lists_data = Some [\<lparr>list_id = 1, list_userId = 7, list_title = ''home'',
              list_createdAt = ''t0'', list_updatedAt = ''t0''\<rparr>]\<rparr>"
  using C10_no_tasks_cache_frame
    [of "\<lparr>tasks_data = None, lists_data = Some [\<lparr>list_id = 1, list_userId = 7, list_title = ''home'',
              list_createdAt = ''t0'', list_updatedAt = ''t0''\<rparr>]\<rparr>" "list_deleted 1"]
  by simp

section \<open>Single-flight refresh\<close>


lemma client_run_Nil: "client_run s [] = s"
  by (simp add: client_run_def)

lemma client_run_Cons: "client_run s (a # as) = client_run (client_step s a) as"
  by (simp add: client_run_def)

lemma client_run_snoc: "client_run s (as @ [a]) = client_step (client_run s as) a"
  by (simp add: client_run_def)

lemma first_unauthorized:
  assumes "\<not> isRefreshing s" "truthy (refreshToken (storage s))" "\<not> retry r" "\<not> targets_refresh r"
  shows "client_step s (unauthorized r) =
           s\<lparr>isRefreshing := True, refreshCalls := refreshCalls s + 1,
             refreshPosts := refreshPosts s @ [(r\<lparr>retry := True\<rparr>, the (refreshToken (storage s)))]\<rparr>"
  using assms by (simp add: unauthorized_def onResponseError_def targets_refresh_def)

lemma later_unauthorized:
  assumes "isRefreshing s" "truthy (refreshToken (storage s))" "\<not> retry r" "\<not> targets_refresh r"
  shows "client_step s (unauthorized r) = s\<lparr>failedQueue := failedQueue s @ [r]\<rparr>"
  using assms by (simp add: unauthorized_def onResponseError_def targets_refresh_def)

lemma queue_all:
  assumes "isRefreshing s" "truthy (refreshToken (storage s))"
    and "\<forall>q\<in>set qs. \<not> retry q \<and> \<not> targets_refresh q"
  shows "client_run s (map unauthorized qs) = s\<lparr>failedQueue := failedQueue s @ qs\<rparr>"
  using assms
proof (induction qs arbitrary: s)
  case Nil
  then show ?case by (simp add: client_run_Nil)
next
  case (Cons q qs)
  have st: "client_step s (unauthorized q) = s\<lparr>failedQueue := failedQueue s @ [q]\<rparr>"
    using Cons.prems by (simp add: later_unauthorized)
  have "client_run (s\<lparr>failedQueue := failedQueue s @ [q]\<rparr>) (map unauthorized qs)
        = (s\<lparr>failedQueue := failedQueue s @ [q]\<rparr>)\<lparr>failedQueue := failedQueue (s\<lparr>failedQueue := failedQueue s @ [q]\<rparr>) @ qs\<rparr>"
    by (rule Cons.IH) (use Cons.prems in simp_all)
  with st show ?case by (simp add: client_run_Cons)
qed

lemma fold_api_call:
  "fold (\<lambda>cfg st. api_call cfg st) qs s =
     s\<lparr>sent := sent s @ map (\<lambda>cfg. if truthy (token (storage s))
         then cfg\<lparr>authorization := Some (''Bearer '' @ the (token (storage s)))\<rparr>
         else cfg) qs\<rparr>"
  by (induction qs arbitrary: s) (simp_all add: api_call_def)

lemma fold_reject_call:
  "fold (\<lambda>cfg st. reject_call (Some cfg) st) qs s = s\<lparr>rejected := rejected s @ map Some qs\<rparr>"
  by (induction qs arbitrary: s) (simp_all add: reject_call_def)

lemma processQueue_resend:
  "processQueue False s =
     s\<lparr>sent := sent s @ map (\<lambda>cfg. if truthy (token (storage s))
         then cfg\<lparr>authorization := Some (''Bearer '' @ the (token (storage s)))\<rparr>
         else cfg) (failedQueue s), failedQueue := []\<rparr>"
  by (simp add: processQueue_def fold_api_call)

lemma processQueue_reject:
  "processQueue True s = s\<lparr>rejected := rejected s @ map Some (failedQueue s), failedQueue := []\<rparr>"
  by (simp add: processQueue_def fold_reject_call)

lemma handleAuthFailure_frame:
  "isRefreshing (handleAuthFailure s) = isRefreshing s"
  "refreshPosts (handleAuthFailure s) = refreshPosts s"
  "refreshCalls (handleAuthFailure s) = refreshCalls s"
  "failedQueue (handleAuthFailure s) = failedQueue s"
  "sent (handleAuthFailure s) = sent s"
  "rejected (handleAuthFailure s) = rejected s"
  "storage (handleAuthFailure s) = \<lparr>token = None, refreshToken = None, offlineCache = None\<rparr>"
  by (simp_all add: handleAuthFailure_def Let_def)

lemma single_flight_step: "single_flight s \<Longrightarrow> single_flight (client_step s a)"
proof (cases a)
  case (ResponseError err)
  assume "single_flight s"
  then show ?thesis using ResponseError
    by (auto simp: single_flight_def onResponseError_def reject_call_def handleAuthFailure_frame
        split: option.splits if_splits)
next
  case (RefreshResolved x y)
  assume "single_flight s"
  then show ?thesis using RefreshResolved
    by (auto simp: single_flight_def onRefreshResolved_def processQueue_resend api_call_def Let_def
        split: list.splits if_splits)
next
  case RefreshRejected
  assume "single_flight s"
  then show ?thesis using RefreshRejected
    by (auto simp: single_flight_def onRefreshRejected_def processQueue_reject reject_call_def
        handleAuthFailure_frame Let_def split: list.splits if_splits)
qed

lemma single_flight_run: "single_flight s \<Longrightarrow> single_flight (client_run s as)"
  by (induction as arbitrary: s) (simp_all add: client_run_Nil client_run_Cons single_flight_step)

lemma blocked_state:
  assumes idle: "\<not> isRefreshing s" "failedQueue s = []" "refreshPosts s = []"
      and cred: "truthy (refreshToken (storage s))"
      and reqs: "\<forall>q\<in>set (r # qs). \<not> retry q \<and> \<not> targets_refresh q"
  shows "client_run s (map unauthorized (r # qs)) =
           s\<lparr>isRefreshing := True, refreshCalls := refreshCalls s + 1,
             refreshPosts := [(r\<lparr>retry := True\<rparr>, the (refreshToken (storage s)))],
             failedQueue := qs\<rparr>"
proof -
  let ?s1 = "s\<lparr>isRefreshing := True, refreshCalls := refreshCalls s + 1,
             refreshPosts := refreshPosts s @ [(r\<lparr>retry := True\<rparr>, the (refreshToken (storage s)))]\<rparr>"
  have 1: "client_step s (unauthorized r) = ?s1"
    using idle cred reqs by (simp add: first_unauthorized)
  have 2: "client_run ?s1 (map unauthorized qs) = ?s1\<lparr>failedQueue := failedQueue ?s1 @ qs\<rparr>"
    by (rule queue_all) (use cred reqs in simp_all)
  show ?thesis using 1 2 idle by (simp add: client_run_Cons)
qed

text \<open>
  Claim C5 sets no condition on when the failures arrive. Requests 1 and 2 are in flight
  together, both sent with the old token, and a refresh token is stored. The 401 of
  request 1 starts the refresh; the refresh succeeds and request 1 is sent again; then the
  401 of request 2 arrives. \<^verbatim>\<open>isRefreshing\<close> is false again and request 2 carries no mark,
  so a second refresh request is issued.
\<close>

theorem C5_late_failure_starts_second_refresh_counterexample:
  "(let s = client_run (client_init (Some ''old'') (Some ''rt0'') ''/'')
        [unauthorized (exampleRequest 1 ''/api/tasks''),
         RefreshResolved ''new'' ''rt1'',
         unauthorized (exampleRequest 2 ''/api/lists'')]
    in refreshCalls s = 2 \<and> length (refreshPosts s) = 1
     \<and> map (\<lambda>q. (req_id q, authorization q)) (sent s) = [(1, Some ''Bearer new'')]
     \<and> failedQueue s = [])"
  by (simp add: client_run_def client_init_def unauthorized_def exampleRequest_def
      onResponseError_def onRefreshResolved_def processQueue_def api_call_def
      truthy_def includes_str_def sublist_code Let_def)

text \<open>
  Claim C5, amended. The client is idle (no refresh in flight, empty queue) and holds a
  refresh token. \<open>N \<ge> 1\<close> requests \<open>r # qs\<close>, none marked as a retry and none to the refresh
  endpoint, fail with status 401, all of them before the refresh settles. Then one refresh
  request is issued and one is in flight, the other requests wait in the queue, and
  nothing is sent or rejected yet. When the refresh succeeds, every one of the \<open>N\<close>
  requests is sent again, once, carrying the new access token, the new token pair is
  stored and nothing is rejected. When it fails, every one of the \<open>N\<close> requests is rejected,
  none is sent again and the stored credentials are cleared. In both cases the count of
  refresh requests stays at one. And whatever arrives in whatever order, at no time is
  more than one refresh request in flight.
\<close>

theorem C5_single_refresh_for_blocked_requests:
  assumes idle: "\<not> isRefreshing s" "failedQueue s = []" "refreshPosts s = []"
      and cred: "truthy (refreshToken (storage s))"
      and reqs: "list_all (\<lambda>q. \<not> retry q \<and> \<not> targets_refresh q) (r # qs)"
      and tok: "accessToken \<noteq> []"
  shows "(let blocked = client_run s (map unauthorized (r # qs)) in
            refreshCalls blocked = refreshCalls s + 1
          \<and> length (refreshPosts blocked) = 1
          \<and> failedQueue blocked = qs
          \<and> sent blocked = sent s \<and> rejected blocked = rejected s)
       \<and> (let resumed = client_run s (map unauthorized (r # qs)
                                        @ [RefreshResolved accessToken newRefreshToken]) in
            refreshCalls resumed = refreshCalls s + 1
          \<and> refreshPosts resumed = [] \<and> \<not> isRefreshing resumed \<and> failedQueue resumed = []
          \<and> sent resumed = sent s @ map (with_bearer accessToken) (qs @ [r\<lparr>retry := True\<rparr>])
          \<and> rejected resumed = rejected s
          \<and> token (storage resumed) = Some accessToken
          \<and> refreshToken (storage resumed) = Some newRefreshToken)
       \<and> (let failed = client_run s (map unauthorized (r # qs) @ [RefreshRejected]) in
            refreshCalls failed = refreshCalls s + 1
          \<and> refreshPosts failed = [] \<and> \<not> isRefreshing failed \<and> failedQueue failed = []
          \<and> sent failed = sent s
          \<and> rejected failed = rejected s @ map Some (qs @ [r\<lparr>retry := True\<rparr>])
          \<and> token (storage failed) = None \<and> refreshToken (storage failed) = None)
       \<and> (\<forall>arrivals. length (refreshPosts (client_run s arrivals)) \<le> 1)"
proof -
  define blocked where "blocked = client_run s (map unauthorized (r # qs))"
  have b: "blocked = s\<lparr>isRefreshing := True, refreshCalls := refreshCalls s + 1,
             refreshPosts := [(r\<lparr>retry := True\<rparr>, the (refreshToken (storage s)))],
             failedQueue := qs\<rparr>"
    unfolding blocked_def by (rule blocked_state[OF idle cred]) (use reqs in \<open>simp add: list_all_iff\<close>)
  have nxt: "client_run s (map unauthorized (r # qs) @ [a]) = client_step blocked a" for a
    unfolding blocked_def by (rule client_run_snoc)
  have A: "let blocked = client_run s (map unauthorized (r # qs)) in
            refreshCalls blocked = refreshCalls s + 1
          \<and> length (refreshPosts blocked) = 1
          \<and> failedQueue blocked = qs
          \<and> sent blocked = sent s \<and> rejected blocked = rejected s"
    by (simp only: Let_def blocked_def[symmetric]) (simp add: b)
  have B: "let resumed = client_run s (map unauthorized (r # qs)
                                        @ [RefreshResolved accessToken newRefreshToken]) in
            refreshCalls resumed = refreshCalls s + 1
          \<and> refreshPosts resumed = [] \<and> \<not> isRefreshing resumed \<and> failedQueue resumed = []
          \<and> sent resumed = sent s @ map (with_bearer accessToken) (qs @ [r\<lparr>retry := True\<rparr>])
          \<and> rejected resumed = rejected s
          \<and> token (storage resumed) = Some accessToken
          \<and> refreshToken (storage resumed) = Some newRefreshToken"
    using tok
    by (simp only: Let_def nxt)
       (simp add: b Let_def onRefreshResolved_def processQueue_resend api_call_def
          truthy_def with_bearer_def)
  have C: "let failed = client_run s (map unauthorized (r # qs) @ [RefreshRejected]) in
            refreshCalls failed = refreshCalls s + 1
          \<and> refreshPosts failed = [] \<and> \<not> isRefreshing failed \<and> failedQueue failed = []
          \<and> sent failed = sent s
          \<and> rejected failed = rejected s @ map Some (qs @ [r\<lparr>retry := True\<rparr>])
          \<and> token (storage failed) = None \<and> refreshToken (storage failed) = None"
    by (simp only: Let_def nxt)
       (simp add: b Let_def onRefreshRejected_def processQueue_reject reject_call_def
          handleAuthFailure_frame)
  have "single_flight s" using idle by (simp add: single_flight_def)
  then have D: "\<forall>arrivals. length (refreshPosts (client_run s arrivals)) \<le> 1"
    using single_flight_run[of s] by (auto simp: single_flight_def split: if_splits)
  from A B C D show ?thesis by blast
qed

theorem C5_single_refresh_for_blocked_requests_witness:
  "\<not> isRefreshing (client_init (Some ''old'') (Some ''rt0'') ''/'')
   \<and> failedQueue (client_init (Some ''old'') (Some ''rt0'') ''/'') = []
   \<and> refreshPosts (client_init (Some ''old'') (Some ''rt0'') ''/'') = []
   \<and> truthy (refreshToken (storage (client_init (Some ''old'') (Some ''rt0'') ''/'')))
   \<and> list_all (\<lambda>q. \<not> retry q \<and> \<not> targets_refresh q)
        [exampleRequest 1 ''/api/tasks'', exampleRequest 2 ''/api/lists'',
         exampleRequest 3 ''/api/user/me'', exampleRequest 4 ''/api/tasks/7'',
         exampleRequest 5 ''/api/tasks/reorder'']
   \<and> ''new'' \<noteq> []
   \<and> refreshCalls (client_run (client_init (Some ''old'') (Some ''rt0'') ''/'')
        (map unauthorized
           [exampleRequest 1 ''/api/tasks'', exampleRequest 2 ''/api/lists'',
            exampleRequest 3 ''/api/user/me'', exampleRequest 4 ''/api/tasks/7'',
            exampleRequest 5 ''/api/tasks/reorder'']
         @ [RefreshResolved ''new'' ''rt1''])) = 1
   \<and> map (\<lambda>q. (req_id q, authorization q))
        (sent (client_run (client_init (Some ''old'') (Some ''rt0'') ''/'')
        (map unauthorized
           [exampleRequest 1 ''/api/tasks'', exampleRequest 2 ''/api/lists'',
            exampleRequest 3 ''/api/user/me'', exampleRequest 4 ''/api/tasks/7'',
            exampleRequest 5 ''/api/tasks/reorder'']
         @ [RefreshResolved ''new'' ''rt1''])))
      = [(2, Some ''Bearer new''), (3, Some ''Bearer new''), (4, Some ''Bearer new''),
         (5, Some ''Bearer new''), (1, Some ''Bearer new'')]"
proof -
  let ?s = "client_init (Some ''old'') (Some ''rt0'') ''/''"
  let ?r = "exampleRequest 1 ''/api/tasks''"
  let ?qs = "[exampleRequest 2 ''/api/lists'',
         exampleRequest 3 ''/api/user/me'', exampleRequest 4 ''/api/tasks/7'',
         exampleRequest 5 ''/api/tasks/reorder'']"
  have h1: "\<not> isRefreshing ?s" and h2: "failedQueue ?s = []" and h3: "refreshPosts ?s = []"
    and h4: "truthy (refreshToken (storage ?s))"
    by (simp_all add: client_init_def truthy_def)
  have h5: "list_all (\<lambda>q. \<not> retry q \<and> \<not> targets_refresh q) (?r # ?qs)"
    by (simp add: exampleRequest_def targets_refresh_def includes_str_def sublist_code)
  have h6: "''new'' \<noteq> []" by simp
  have s0: "refreshCalls ?s = 0" "sent ?s = []" by (simp_all add: client_init_def)
  from C5_single_refresh_for_blocked_requests[OF h1 h2 h3 h4 h5 h6, of "''rt1''"]
  have "refreshCalls (client_run ?s (map unauthorized (?r # ?qs) @ [RefreshResolved ''new'' ''rt1''])) = 1
      \<and> sent (client_run ?s (map unauthorized (?r # ?qs) @ [RefreshResolved ''new'' ''rt1'']))
          = map (with_bearer ''new'') (?qs @ [?r\<lparr>retry := True\<rparr>])"
    by (simp only: Let_def s0) simp
  then have "refreshCalls (client_run ?s (map unauthorized (?r # ?qs) @ [RefreshResolved ''new'' ''rt1''])) = 1
      \<and> map (\<lambda>q. (req_id q, authorization q))
          (sent (client_run ?s (map unauthorized (?r # ?qs) @ [RefreshResolved ''new'' ''rt1''])))
        = [(2, Some ''Bearer new''), (3, Some ''Bearer new''), (4, Some ''Bearer new''),
           (5, Some ''Bearer new''), (1, Some ''Bearer new'')]"
    by (simp add: with_bearer_def exampleRequest_def)
  with h1 h2 h3 h4 h5 h6 show ?thesis by blast
qed







text \<open>
  With answers this backend does not give, a refresh that succeeds twice and a second 401
  for a request the queue re-sent: the queue re-sends the request without the \<^verbatim>\<open>_retry\<close>
  mark, so its next 401 starts a refresh of its own and the request is sent a second time.
\<close>

lemma queued_request_resent_unmarked:
  "(let final = client_run (client_init (Some ''old'') (Some ''rt0'') ''/'')
        [unauthorized (exampleRequest 1 ''/api/tasks''),
         unauthorized (exampleRequest 2 ''/api/lists''),
         RefreshResolved ''a1'' ''rt1'',
         unauthorized (with_bearer ''a1'' (exampleRequest 2 ''/api/lists'')),
         RefreshResolved ''a2'' ''rt2'']
    in map (\<lambda>q. (req_id q, retry q, authorization q)) (sent final)
         = [(2, False, Some ''Bearer a1''), (1, True, Some ''Bearer a1''),
            (2, True, Some ''Bearer a2'')]
     \<and> length (filter (\<lambda>q. req_id q = 2) (sent final)) = 2
     \<and> refreshCalls final = 2
     \<and> rejected final = []
     \<and> token (storage final) = Some ''a2''
     \<and> refreshToken (storage final) = Some ''rt2''
     \<and> reloads final = 0)"
  by (simp add: client_run_def client_init_def unauthorized_def exampleRequest_def
      with_bearer_def onResponseError_def onRefreshResolved_def processQueue_def api_call_def
      truthy_def includes_str_def sublist_code Let_def)




section \<open>Publishing to a user\<close>


lemma broadcast_one_open:
  assumes "\<not> closed (send (client_at h c))"
  shows "broadcast_one u m c h =
     Inr \<lparr>clients = (if chan_full (send (client_at h c))
                     then (case clients h u of None \<Rightarrow> clients h
                           | Some cur \<Rightarrow> (clients h)(u \<mapsto> removeAll c cur))
                     else clients h),
          client_at = (client_at h)(c := after_publish m (client_at h c))\<rparr>"
  using assms
  by (auto simp: broadcast_one_def chan_try_send_def chan_close_def set_send_def chan_full_def
      after_publish_def Let_def split: option.splits)

lemma broadcast_loop_result:
  assumes "distinct cs" "\<forall>c\<in>set cs. \<not> closed (send (client_at h c))"
  shows "broadcast_loop u m cs h =
     Inr \<lparr>clients = (case clients h u of
                       None \<Rightarrow> clients h
                     | Some cur \<Rightarrow>
                         (clients h)(u \<mapsto> filter (\<lambda>c. \<not> (c \<in> set cs \<and> chan_full (send (client_at h c)))) cur)),
          client_at = (\<lambda>c. if c \<in> set cs then after_publish m (client_at h c) else client_at h c)\<rparr>"
  using assms
proof (induction cs arbitrary: h)
  case Nil
  show ?case by (cases "clients h u") (simp_all add: fun_upd_idem)
next
  case (Cons c cs)
  let ?h1 = "\<lparr>clients = (if chan_full (send (client_at h c))
                     then (case clients h u of None \<Rightarrow> clients h
                           | Some cur \<Rightarrow> (clients h)(u \<mapsto> removeAll c cur))
                     else clients h),
          client_at = (client_at h)(c := after_publish m (client_at h c))\<rparr>"
  have one: "broadcast_one u m c h = Inr ?h1"
    using Cons.prems by (simp add: broadcast_one_open)
  have d: "distinct cs" "c \<notin> set cs" using Cons.prems by simp_all
  have o: "\<forall>c'\<in>set cs. \<not> closed (send (client_at ?h1 c'))"
    using Cons.prems by auto
  note IH = Cons.IH[OF d(1) o]
  have same: "\<And>c'. c' \<in> set cs \<Longrightarrow> client_at ?h1 c' = client_at h c'"
    using d(2) by auto
  have cl: "(case clients ?h1 u of
                       None \<Rightarrow> clients ?h1
                     | Some cur \<Rightarrow>
                         (clients ?h1)(u \<mapsto> filter (\<lambda>c'. \<not> (c' \<in> set cs \<and> chan_full (send (client_at ?h1 c')))) cur))
           = (case clients h u of
                       None \<Rightarrow> clients h
                     | Some cur \<Rightarrow>
                         (clients h)(u \<mapsto> filter (\<lambda>c'. \<not> (c' \<in> set (c # cs) \<and> chan_full (send (client_at h c')))) cur))"
  proof (cases "clients h u")
    case None
    then show ?thesis by simp
  next
    case (Some cur)
    have f: "filter (\<lambda>c'. \<not> (c' \<in> set cs \<and> chan_full (send (client_at ?h1 c')))) xs
           = filter (\<lambda>c'. \<not> (c' \<in> set cs \<and> chan_full (send (client_at h c')))) xs" for xs
      using d(2) by (intro filter_cong) auto
    show ?thesis
    proof (cases "chan_full (send (client_at h c))")
      case True
      have "filter (\<lambda>c'. \<not> (c' \<in> set cs \<and> chan_full (send (client_at h c')))) (removeAll c cur)
          = filter (\<lambda>c'. \<not> (c' \<in> set (c # cs) \<and> chan_full (send (client_at h c')))) cur"
        using True by (induction cur) auto
      with Some True f show ?thesis by simp
    next
      case False
      have "filter (\<lambda>c'. \<not> (c' \<in> set cs \<and> chan_full (send (client_at h c')))) cur
          = filter (\<lambda>c'. \<not> (c' \<in> set (c # cs) \<and> chan_full (send (client_at h c')))) cur"
        using False by (intro filter_cong) auto
      with Some False f show ?thesis by simp
    qed
  qed
  have ca: "(\<lambda>c'. if c' \<in> set cs then after_publish m (client_at ?h1 c') else client_at ?h1 c')
          = (\<lambda>c'. if c' \<in> set (c # cs) then after_publish m (client_at h c') else client_at h c')"
    using d(2) by (auto intro!: ext)
  have "broadcast_loop u m (c # cs) h = broadcast_loop u m cs ?h1"
    by (simp add: one)
  also have "\<dots> = Inr \<lparr>clients = (case clients ?h1 u of
                       None \<Rightarrow> clients ?h1
                     | Some cur \<Rightarrow>
                         (clients ?h1)(u \<mapsto> filter (\<lambda>c'. \<not> (c' \<in> set cs \<and> chan_full (send (client_at ?h1 c')))) cur)),
          client_at = (\<lambda>c'. if c' \<in> set cs then after_publish m (client_at ?h1 c') else client_at ?h1 c')\<rparr>"
    by (rule IH)
  finally show ?case by (simp only: cl ca)
qed

lemma hub_broadcast_result:
  assumes "registered_open h"
  shows "hub_broadcast u m h =
     Inr \<lparr>clients = (case clients h u of
                       None \<Rightarrow> clients h
                     | Some cur \<Rightarrow>
                         (clients h)(u \<mapsto> filter (\<lambda>c. \<not> chan_full (send (client_at h c))) cur)),
          client_at = (\<lambda>c. if c \<in> set (connections h u) then after_publish m (client_at h c)
                            else client_at h c)\<rparr>"
proof (cases "clients h u")
  case None
  then show ?thesis by (simp add: hub_broadcast_def connections_def)
next
  case (Some cs)
  with assms have d: "distinct cs" and o: "\<forall>c\<in>set cs. \<not> closed (send (client_at h c))"
    by (auto simp: registered_open_def)
  have "filter (\<lambda>c. \<not> (c \<in> set cs \<and> chan_full (send (client_at h c)))) cs
      = filter (\<lambda>c. \<not> chan_full (send (client_at h c))) cs"
    by (intro filter_cong) auto
  with Some broadcast_loop_result[OF d o, of u m] show ?thesis
    by (simp add: hub_broadcast_def connections_def)
qed

lemma hub_inv_registered_open: "hub_inv h \<Longrightarrow> registered_open h"
  unfolding hub_inv_def registered_open_def by blast

lemma hub_inv_NewHub: "hub_inv (NewHub mem)"
  by (simp add: hub_inv_def NewHub_def)

lemma hub_inv_register:
  assumes "hub_inv h" "\<not> closed (send (client_at h c))"
  shows "hub_inv (hub_register c h)"
proof -
  let ?u = "userID (client_at h c)"
  define cs where "cs = (case clients h ?u of None \<Rightarrow> [] | Some cs \<Rightarrow> cs)"
  define cs' where "cs' = (if c \<in> set cs then cs else cs @ [c])"
  have r: "hub_register c h = h\<lparr>clients := (clients h)(?u \<mapsto> cs')\<rparr>"
    by (simp only: hub_register_def Let_def cs_def cs'_def)
  have old: "distinct cs \<and> (\<forall>x\<in>set cs. \<not> closed (send (client_at h x)) \<and> userID (client_at h x) = ?u)"
  proof (cases "clients h ?u")
    case None
    then show ?thesis by (simp add: cs_def)
  next
    case (Some ds)
    then have "cs = ds" by (simp add: cs_def)
    with assms(1)[unfolded hub_inv_def, rule_format, OF Some] show ?thesis by blast
  qed
  have new: "distinct cs' \<and> (\<forall>x\<in>set cs'. \<not> closed (send (client_at h x)) \<and> userID (client_at h x) = ?u)"
  proof (cases "c \<in> set cs")
    case True
    then have "cs' = cs" by (simp add: cs'_def)
    with old show ?thesis by blast
  next
    case False
    then have "cs' = cs @ [c]" by (simp add: cs'_def)
    with old False assms(2) show ?thesis by auto
  qed
  show ?thesis
    unfolding hub_inv_def r
  proof (intro allI impI)
    fix v cs2
    assume a: "clients (h\<lparr>clients := (clients h)(?u \<mapsto> cs')\<rparr>) v = Some cs2"
    show "distinct cs2 \<and> (\<forall>x\<in>set cs2. \<not> closed (send (client_at (h\<lparr>clients := (clients h)(?u \<mapsto> cs')\<rparr>) x))
             \<and> userID (client_at (h\<lparr>clients := (clients h)(?u \<mapsto> cs')\<rparr>) x) = v)"
    proof (cases "v = ?u")
      case True
      with a have "cs2 = cs'" by simp
      with new True show ?thesis by simp
    next
      case False
      with a have b: "clients h v = Some cs2" by simp
      from assms(1)[unfolded hub_inv_def, rule_format, OF b] show ?thesis by simp
    qed
  qed
qed

lemma hub_inv_unregister:
  assumes "hub_inv h"
  shows "\<exists>h'. hub_unregister c h = Inr h' \<and> hub_inv h'"
proof (cases "clients h (userID (client_at h c))")
  case None
  with assms show ?thesis by (simp add: hub_unregister_def)
next
  case (Some cs)
  show ?thesis
  proof (cases "c \<in> set cs")
    case False
    with Some assms show ?thesis by (simp add: hub_unregister_def)
  next
    case True
    with Some assms have op: "\<not> closed (send (client_at h c))"
      by (auto simp: hub_inv_def)
    have other: "c \<notin> set cs'" if "clients h v = Some cs'" "v \<noteq> userID (client_at h c)" for v cs'
      using that assms by (auto simp: hub_inv_def)
    let ?u = "userID (client_at h c)"
    let ?cs' = "removeAll c cs"
    let ?mem = "(client_at h)(c := (client_at h c)\<lparr>send := (send (client_at h c))\<lparr>closed := True\<rparr>\<rparr>)"
    let ?h' = "if ?cs' = [] then \<lparr>clients = (clients h)(?u := None), client_at = ?mem\<rparr>
               else \<lparr>clients = (clients h)(?u \<mapsto> ?cs'), client_at = ?mem\<rparr>"
    have r: "hub_unregister c h = Inr ?h'"
      using Some True op
      by (simp add: hub_unregister_def Let_def chan_close_def set_send_def)
    have "hub_inv ?h'"
      unfolding hub_inv_def
    proof (intro allI impI)
      fix v cs2
      assume a: "clients ?h' v = Some cs2"
      show "distinct cs2 \<and> (\<forall>x\<in>set cs2. \<not> closed (send (client_at ?h' x)) \<and> userID (client_at ?h' x) = v)"
      proof (cases "v = ?u")
        case True
        with a have cs2: "cs2 = ?cs'" by (auto split: if_splits)
        have "distinct cs" "\<forall>x\<in>set cs. \<not> closed (send (client_at h x)) \<and> userID (client_at h x) = ?u"
          using assms Some by (auto simp: hub_inv_def)
        then show ?thesis using cs2 True by (auto simp: distinct_removeAll split: if_splits)
      next
        case False
        with a have b: "clients h v = Some cs2" by (auto split: if_splits)
        then have "c \<notin> set cs2" using other False by blast
        moreover have "distinct cs2" "\<forall>x\<in>set cs2. \<not> closed (send (client_at h x)) \<and> userID (client_at h x) = v"
          using assms b by (auto simp: hub_inv_def)
        ultimately show ?thesis by (auto split: if_splits)
      qed
    qed
    with r show ?thesis by blast
  qed
qed

lemma hub_inv_broadcast:
  assumes "hub_inv h"
  shows "\<exists>h'. hub_broadcast u m h = Inr h' \<and> hub_inv h'"
proof -
  have other: "c \<notin> set (connections h u)" if "clients h v = Some cs'" "v \<noteq> u" "c \<in> set cs'" for v cs' c
  proof (cases "clients h u")
    case None
    then show ?thesis by (simp add: connections_def)
  next
    case (Some cur)
    from assms[unfolded hub_inv_def, rule_format, OF that(1)] that(3)
    have "userID (client_at h c) = v" by blast
    moreover have "c \<in> set cur \<Longrightarrow> userID (client_at h c) = u"
      using assms[unfolded hub_inv_def, rule_format, OF Some] by blast
    ultimately show ?thesis using that(2) Some by (auto simp: connections_def)
  qed
  let ?h' = "\<lparr>clients = (case clients h u of
                       None \<Rightarrow> clients h
                     | Some cur \<Rightarrow>
                         (clients h)(u \<mapsto> filter (\<lambda>c. \<not> chan_full (send (client_at h c))) cur)),
          client_at = (\<lambda>c. if c \<in> set (connections h u) then after_publish m (client_at h c)
                            else client_at h c)\<rparr>"
  have r: "hub_broadcast u m h = Inr ?h'"
    by (rule hub_broadcast_result[OF hub_inv_registered_open[OF assms]])
  have "hub_inv ?h'"
    unfolding hub_inv_def
  proof (intro allI impI)
    fix v cs2
    assume a: "clients ?h' v = Some cs2"
    show "distinct cs2 \<and> (\<forall>x\<in>set cs2. \<not> closed (send (client_at ?h' x)) \<and> userID (client_at ?h' x) = v)"
    proof (cases "v = u")
      case True
      with a obtain cur where cur: "clients h u = Some cur"
        and cs2: "cs2 = filter (\<lambda>c. \<not> chan_full (send (client_at h c))) cur"
        by (cases "clients h u") auto
      have "distinct cur" "\<forall>x\<in>set cur. \<not> closed (send (client_at h x)) \<and> userID (client_at h x) = u"
        using assms cur by (auto simp: hub_inv_def)
      then show ?thesis using cs2 True cur
        by (auto simp: after_publish_def connections_def)
    next
      case False
      with a have b: "clients h v = Some cs2" by (cases "clients h u") auto
      have n: "\<forall>x\<in>set cs2. x \<notin> set (connections h u)" using other[OF b False] by blast
      have "distinct cs2" "\<forall>x\<in>set cs2. \<not> closed (send (client_at h x)) \<and> userID (client_at h x) = v"
        using assms b by (auto simp: hub_inv_def)
      with n show ?thesis by auto
    qed
  qed
  with r show ?thesis by blast
qed


lemma hub_inv_step:
  assumes "hub_inv h" and "\<And>c. msg = Register c \<Longrightarrow> \<not> closed (send (client_at h c))"
  shows "\<exists>h'. hub_step h msg = Inr h' \<and> hub_inv h'"
proof (cases msg)
  case (Register c)
  with assms show ?thesis by (simp add: hub_inv_register)
next
  case (Unregister c)
  with hub_inv_unregister[OF assms(1), of c] show ?thesis by simp
next
  case (Broadcast u m)
  with hub_inv_broadcast[OF assms(1), of u m] show ?thesis by simp
qed

lemma publish_effect:
  assumes "registered_open h"
  shows "\<exists>h'. hub_broadcast u message h = Inr h'
     \<and> (\<forall>c\<in>set (connections h u).
          if chan_full (send (client_at h c))
          then closed (send (client_at h' c)) \<and> c \<notin> set (connections h' u)
          else send (client_at h' c)
                 = (send (client_at h c))\<lparr>buf := buf (send (client_at h c)) @ [message]\<rparr>
               \<and> c \<in> set (connections h' u))
     \<and> (\<forall>c. c \<notin> set (connections h u) \<longrightarrow> client_at h' c = client_at h c)
     \<and> (\<forall>v. v \<noteq> u \<longrightarrow> clients h' v = clients h v)"
proof -
  let ?h' = "\<lparr>clients = (case clients h u of
                       None \<Rightarrow> clients h
                     | Some cur \<Rightarrow>
                         (clients h)(u \<mapsto> filter (\<lambda>c. \<not> chan_full (send (client_at h c))) cur)),
          client_at = (\<lambda>c. if c \<in> set (connections h u) then after_publish message (client_at h c)
                            else client_at h c)\<rparr>"
  have r: "hub_broadcast u message h = Inr ?h'"
    by (rule hub_broadcast_result[OF assms])
  have conn: "connections ?h' u = filter (\<lambda>c. \<not> chan_full (send (client_at h c))) (connections h u)"
    by (simp add: connections_def split: option.splits)
  have 1: "\<forall>c\<in>set (connections h u).
          if chan_full (send (client_at h c))
          then closed (send (client_at ?h' c)) \<and> c \<notin> set (connections ?h' u)
          else send (client_at ?h' c)
                 = (send (client_at h c))\<lparr>buf := buf (send (client_at h c)) @ [message]\<rparr>
               \<and> c \<in> set (connections ?h' u)"
    by (simp add: conn after_publish_def)
  have 2: "\<forall>c. c \<notin> set (connections h u) \<longrightarrow> client_at ?h' c = client_at h c"
    by simp
  have 3: "\<forall>v. v \<noteq> u \<longrightarrow> clients ?h' v = clients h v"
    by (simp split: option.splits)
  from r 1 2 3 show ?thesis by blast
qed

lemma later_publish_to_other_user:
  assumes inv: "hub_inv h" and r: "hub_broadcast u message h = Inr h'" and vu: "v \<noteq> u"
  shows "\<exists>h''. hub_broadcast v message' h' = Inr h''
     \<and> (\<forall>c\<in>set (connections h v). \<not> chan_full (send (client_at h c)) \<longrightarrow>
            send (client_at h'' c)
              = (send (client_at h c))\<lparr>buf := buf (send (client_at h c)) @ [message']\<rparr>
          \<and> c \<in> set (connections h'' v))"
proof -
  from hub_inv_broadcast[OF inv, of u message] r have inv': "hub_inv h'" by simp
  from publish_effect[OF hub_inv_registered_open[OF inv], of u message] r
  have same_mem: "\<forall>c. c \<notin> set (connections h u) \<longrightarrow> client_at h' c = client_at h c"
    and same_reg: "\<forall>w. w \<noteq> u \<longrightarrow> clients h' w = clients h w"
    by auto
  from same_reg vu have conn: "connections h' v = connections h v"
    by (simp add: connections_def)
  have untouched: "client_at h' c = client_at h c" if c: "c \<in> set (connections h v)" for c
  proof -
    from c obtain cs where cs: "clients h v = Some cs" "c \<in> set cs"
      by (cases "clients h v") (auto simp: connections_def)
    from inv[unfolded hub_inv_def, rule_format, OF cs(1)] cs(2)
    have own: "userID (client_at h c) = v" by blast
    have "c \<notin> set (connections h u)"
    proof (cases "clients h u")
      case None
      then show ?thesis by (simp add: connections_def)
    next
      case (Some cur)
      have "c \<in> set cur \<Longrightarrow> userID (client_at h c) = u"
        using inv[unfolded hub_inv_def, rule_format, OF Some] by blast
      with own vu Some show ?thesis by (auto simp: connections_def)
    qed
    with same_mem show ?thesis by blast
  qed
  from publish_effect[OF hub_inv_registered_open[OF inv'], of v message']
  obtain h'' where h'': "hub_broadcast v message' h' = Inr h''"
    and eff: "\<forall>c\<in>set (connections h' v).
          if chan_full (send (client_at h' c))
          then closed (send (client_at h'' c)) \<and> c \<notin> set (connections h'' v)
          else send (client_at h'' c)
                 = (send (client_at h' c))\<lparr>buf := buf (send (client_at h' c)) @ [message']\<rparr>
               \<and> c \<in> set (connections h'' v)"
    by blast
  have "\<forall>c\<in>set (connections h v). \<not> chan_full (send (client_at h c)) \<longrightarrow>
            send (client_at h'' c)
              = (send (client_at h c))\<lparr>buf := buf (send (client_at h c)) @ [message']\<rparr>
          \<and> c \<in> set (connections h'' v)"
  proof (intro ballI impI)
    fix c assume c: "c \<in> set (connections h v)" and nf: "\<not> chan_full (send (client_at h c))"
    from c conn have c': "c \<in> set (connections h' v)" by simp
    from untouched[OF c] nf have nf': "\<not> chan_full (send (client_at h' c))" by simp
    from eff[rule_format, OF c'] nf' untouched[OF c]
    show "send (client_at h'' c)
              = (send (client_at h c))\<lparr>buf := buf (send (client_at h c)) @ [message']\<rparr>
          \<and> c \<in> set (connections h'' v)" by simp
  qed
  with h'' show ?thesis by blast
qed


text \<open>
  Claim C8. In a registry whose registered clients have open channels, a publish to user
  \<open>u\<close> returns (no panic, and the loop makes one non-blocking pass per connection). Every
  connection of \<open>u\<close> whose queue is full has its queue closed and is removed from \<open>u\<close>'s
  set; every other connection of \<open>u\<close> gets the envelope appended to its queue and stays
  registered. Delivery to other users is not held up: no client outside \<open>u\<close>'s set is
  touched, the connection set of every other user is as it was, and (the registry's
  invariant holding) a publish to another user that follows returns and reaches every
  connection of that user whose queue had room.
\<close>

theorem C8_publish_drops_full_and_delivers_to_rest:
  assumes "registered_open h"
  shows "\<exists>h'. hub_broadcast u message h = Inr h'
     \<and> (\<forall>c\<in>set (connections h u).
          if chan_full (send (client_at h c))
          then closed (send (client_at h' c)) \<and> c \<notin> set (connections h' u)
          else send (client_at h' c)
                 = (send (client_at h c))\<lparr>buf := buf (send (client_at h c)) @ [message]\<rparr>
               \<and> c \<in> set (connections h' u))
     \<and> (\<forall>c. c \<notin> set (connections h u) \<longrightarrow> client_at h' c = client_at h c)
     \<and> (\<forall>v. v \<noteq> u \<longrightarrow> clients h' v = clients h v)
     \<and> (hub_inv h \<longrightarrow>
          (\<forall>v message'. v \<noteq> u \<longrightarrow>
             (\<exists>h''. hub_broadcast v message' h' = Inr h''
                \<and> (\<forall>c\<in>set (connections h v). \<not> chan_full (send (client_at h c)) \<longrightarrow>
                       send (client_at h'' c)
                         = (send (client_at h c))\<lparr>buf := buf (send (client_at h c)) @ [message']\<rparr>
                     \<and> c \<in> set (connections h'' v)))))"
proof -
  from publish_effect[OF assms, of u message] obtain h' where
    r: "hub_broadcast u message h = Inr h'"
    and 1: "\<forall>c\<in>set (connections h u).
          if chan_full (send (client_at h c))
          then closed (send (client_at h' c)) \<and> c \<notin> set (connections h' u)
          else send (client_at h' c)
                 = (send (client_at h c))\<lparr>buf := buf (send (client_at h c)) @ [message]\<rparr>
               \<and> c \<in> set (connections h' u)"
    and 2: "\<forall>c. c \<notin> set (connections h u) \<longrightarrow> client_at h' c = client_at h c"
    and 3: "\<forall>v. v \<noteq> u \<longrightarrow> clients h' v = clients h v"
    by blast
  have 4: "hub_inv h \<longrightarrow>
          (\<forall>v message'. v \<noteq> u \<longrightarrow>
             (\<exists>h''. hub_broadcast v message' h' = Inr h''
                \<and> (\<forall>c\<in>set (connections h v). \<not> chan_full (send (client_at h c)) \<longrightarrow>
                       send (client_at h'' c)
                         = (send (client_at h c))\<lparr>buf := buf (send (client_at h c)) @ [message']\<rparr>
                     \<and> c \<in> set (connections h'' v))))"
    using later_publish_to_other_user[OF _ r] by blast
  from r 1 2 3 4 show ?thesis by blast
qed

theorem C8_publish_drops_full_and_delivers_to_rest_witness:
  "registered_open (exampleHub [(1, [0, 1]), (2, [2])] (\<lambda>n. if n = 2 then 2 else 1)
       (\<lambda>n. if n = 0 then replicate 256 ''x'' else []))
   \<and> hub_inv (exampleHub [(1, [0, 1]), (2, [2])] (\<lambda>n. if n = 2 then 2 else 1)
       (\<lambda>n. if n = 0 then replicate 256 ''x'' else []))
   \<and> (case hub_broadcast 1 ''m''
            (exampleHub [(1, [0, 1]), (2, [2])] (\<lambda>n. if n = 2 then 2 else 1)
               (\<lambda>n. if n = 0 then replicate 256 ''x'' else [])) of
        Inl p \<Rightarrow> False
      | Inr h' \<Rightarrow> closed (send (client_at h' 0)) \<and> connections h' 1 = [1]
                \<and> buf (send (client_at h' 1)) = [''m''] \<and> \<not> closed (send (client_at h' 1))
                \<and> connections h' 2 = [2] \<and> \<not> closed (send (client_at h' 2)))
   \<and> (case hub_run
            (exampleHub [(1, [0, 1]), (2, [2])] (\<lambda>n. if n = 2 then 2 else 1)
               (\<lambda>n. if n = 0 then replicate 256 ''x'' else []))
            [Broadcast 1 ''m'', Broadcast 2 ''n''] of
        Inl p \<Rightarrow> False
      | Inr h'' \<Rightarrow> buf (send (client_at h'' 2)) = [''n''] \<and> connections h'' 2 = [2]
                \<and> buf (send (client_at h'' 1)) = [''m''])"
proof -
  let ?h = "exampleHub [(1, [0, 1]), (2, [2])] (\<lambda>n. if n = 2 then 2 else 1)
       (\<lambda>n. if n = 0 then replicate 256 ''x'' else [])"
  have inv: "hub_inv ?h"
    unfolding hub_inv_def
  proof (intro allI impI)
    fix u cs assume "clients ?h u = Some cs"
    then have "(u = 1 \<and> cs = [0, 1]) \<or> (u = 2 \<and> cs = [2])"
      by (auto simp: exampleHub_def split: if_splits)
    then show "distinct cs \<and> (\<forall>c\<in>set cs. \<not> closed (send (client_at ?h c)) \<and> userID (client_at ?h c) = u)"
      by (auto simp: exampleHub_def)
  qed
  have ro: "registered_open ?h" by (rule hub_inv_registered_open[OF inv])
  have ev: "(case hub_broadcast 1 ''m'' ?h of
        Inl p \<Rightarrow> False
      | Inr h' \<Rightarrow> closed (send (client_at h' 0)) \<and> connections h' 1 = [1]
                \<and> buf (send (client_at h' 1)) = [''m''] \<and> \<not> closed (send (client_at h' 1))
                \<and> connections h' 2 = [2] \<and> \<not> closed (send (client_at h' 2)))"
    by (simp add: exampleHub_def hub_broadcast_def connections_def broadcast_one_def
        chan_try_send_def chan_close_def set_send_def)
  have ev2: "(case hub_run ?h [Broadcast 1 ''m'', Broadcast 2 ''n''] of
        Inl p \<Rightarrow> False
      | Inr h'' \<Rightarrow> buf (send (client_at h'' 2)) = [''n''] \<and> connections h'' 2 = [2]
                \<and> buf (send (client_at h'' 1)) = [''m''])"
    by (simp add: exampleHub_def hub_broadcast_def connections_def broadcast_one_def
        chan_try_send_def chan_close_def set_send_def)
  show ?thesis
    using C8_publish_drops_full_and_delivers_to_rest[OF ro, of 1 "''m''"] ro inv ev ev2
    by blast
qed

section \<open>Empty connection sets\<close>

lemma register_keeps_no_empty_sets:
  "no_empty_sets h \<Longrightarrow> no_empty_sets (hub_register c h)"
  by (cases "clients h (userID (client_at h c))")
     (auto simp: no_empty_sets_def hub_register_def Let_def)

lemma unregister_keeps_no_empty_sets:
  "no_empty_sets h \<Longrightarrow> hub_unregister c h = Inr h' \<Longrightarrow> no_empty_sets h'"
  by (auto simp: no_empty_sets_def hub_unregister_def Let_def set_send_def chan_close_def
      split: option.splits if_splits)

lemma fill_queue:
  assumes "clients h u = Some [c]" "\<not> closed (send (client_at h c))"
    "length (buf (send (client_at h c))) + n \<le> cap (send (client_at h c))"
  shows "hub_run h (replicate n (Broadcast u m)) =
     Inr (set_send h c ((send (client_at h c))\<lparr>buf := buf (send (client_at h c)) @ replicate n m\<rparr>))"
  using assms
proof (induction n arbitrary: h)
  case 0
  then show ?case by (simp add: set_send_def)
next
  case (Suc n)
  let ?h1 = "set_send h c ((send (client_at h c))\<lparr>buf := buf (send (client_at h c)) @ [m]\<rparr>)"
  have st: "hub_broadcast u m h = Inr ?h1"
    using Suc.prems
    by (simp add: hub_broadcast_def connections_def broadcast_one_def chan_try_send_def)
  have "hub_run ?h1 (replicate n (Broadcast u m)) =
     Inr (set_send ?h1 c ((send (client_at ?h1 c))\<lparr>buf := buf (send (client_at ?h1 c)) @ replicate n m\<rparr>))"
    by (rule Suc.IH) (use Suc.prems in \<open>simp_all add: set_send_def\<close>)
  then show ?case
    by (simp add: st set_send_def replicate_app_Cons_same)
qed

text \<open>
  Claim C9 says that after every registry operation, the publish that removes an
  overflowing connection included, no user id maps to an empty set. A new hub registers
  the one connection of user 1 and publishes 256 messages to user 1, which fill the
  connection's queue: the registry has no empty set. The next publish to user 1 closes the
  queue and deletes the connection from the set, and the entry of user 1 stays in the map
  with the empty set. (The unregister case deletes the entry when the set becomes empty;
  the broadcast case has no such test.)
\<close>

theorem C9_overflow_leaves_empty_set:
  "(case hub_run (NewHub slowConsumer) (Register 0 # replicate 256 (Broadcast 1 ''m'')) of
      Inl p \<Rightarrow> False
    | Inr h \<Rightarrow>
        no_empty_sets h \<and> clients h 1 = Some [0]
        \<and> (case hub_step h (Broadcast 1 ''m'') of
              Inl p \<Rightarrow> False
            | Inr h' \<Rightarrow> clients h' 1 = Some [] \<and> closed (send (client_at h' 0))
                      \<and> \<not> no_empty_sets h'))"
proof -
  let ?h0 = "hub_register 0 (NewHub slowConsumer)"
  have c: "clients ?h0 1 = Some [0]" "\<not> closed (send (client_at ?h0 0))"
    "length (buf (send (client_at ?h0 0))) + 256 \<le> cap (send (client_at ?h0 0))"
    by (simp_all add: hub_register_def NewHub_def slowConsumer_def make_send_chan_def)
  note f = fill_queue[OF c, of "''m''"]
  show ?thesis
    by (simp add: f)
       (auto simp add: hub_broadcast_def connections_def broadcast_one_def chan_try_send_def
          chan_close_def set_send_def hub_register_def NewHub_def slowConsumer_def
          make_send_chan_def no_empty_sets_def)
qed

end
